theory Spec2Isabelle
  imports Main "HOL-Library.Word"
begin

section \<open>Formater.py: a tab-delimited file converted to CSV, JSON or XML\<close>

text \<open>
  The program is a thin layer over Python's \<^verbatim>\<open>open\<close>, \<^verbatim>\<open>csv\<close>, \<^verbatim>\<open>json\<close> and
  \<^verbatim>\<open>xml.etree.ElementTree\<close>. Each library call the three converters make is given its
  CPython meaning below (CPython 3.11 and later, POSIX line separator), restricted to the
  arguments the program passes: the \<^verbatim>\<open>excel\<close> dialect with a tab delimiter for reading,
  the plain \<^verbatim>\<open>excel\<close> dialect for writing, \<^verbatim>\<open>indent=4\<close> for JSON, and the default
  \<^verbatim>\<open>xml\<close> method for the element tree.

  A Python \<^verbatim>\<open>str\<close> decoded from latin-1 holds code points 0 to 255 only, which is the
  type \<^typ>\<open>char\<close>; a file is a list of bytes.
\<close>

subsection \<open>Characters, bytes and errors\<close>

type_synonym byte = "8 word"

abbreviation TAB :: char where "TAB \<equiv> CHR 0x09"
abbreviation LF :: char where "LF \<equiv> CHR 0x0A"
abbreviation CR :: char where "CR \<equiv> CHR 0x0D"
abbreviation DQUOTE :: char where "DQUOTE \<equiv> CHR 0x22"
abbreviation BACKSLASH :: char where "BACKSLASH \<equiv> CHR 0x5C"

text \<open>The exceptions that can leave a converter. \<open>CsvFieldLimit\<close> and \<open>CsvNewline\<close> are
  the two \<^verbatim>\<open>_csv.Error\<close>s of the reader ("field larger than field limit" and "new-line
  character seen in unquoted field").\<close>

datatype error =
    FileNotFoundError
  | CsvFieldLimit
  | CsvNewline
  | TypeError
  | ValueError
  | KeyError

subsection \<open>Opening the input: \<^verbatim>\<open>open(input_file, 'r', encoding='latin-1', errors='replace')\<close>\<close>

text \<open>latin-1 maps the byte \<open>b\<close> to the code point \<open>b\<close>; no byte is undecodable, so the
  \<^verbatim>\<open>errors='replace'\<close> handler is never called.\<close>

definition decode_latin1 :: "byte list \<Rightarrow> string" where
  "decode_latin1 bs = map (\<lambda>b. char_of (unat b)) bs"

text \<open>Text mode with the default \<^verbatim>\<open>newline=None\<close>: \<^verbatim>\<open>\r\n\<close> and a lone \<^verbatim>\<open>\r\<close> are
  read as \<^verbatim>\<open>\n\<close>.\<close>

fun translate_newlines :: "string \<Rightarrow> string" where
  "translate_newlines [] = []"
| "translate_newlines [c] = [if c = CR then LF else c]"
| "translate_newlines (c # d # cs) =
     (if c = CR \<and> d = LF then LF # translate_newlines cs
      else if c = CR then LF # translate_newlines (d # cs)
      else c # translate_newlines (d # cs))"

text \<open>Iterating over the file yields its lines, each with its terminating \<^verbatim>\<open>\n\<close>; the
  last line may lack one.\<close>

fun file_lines :: "string \<Rightarrow> string list" where
  "file_lines [] = []"
| "file_lines (c # cs) =
     (if c = LF then [LF] # file_lines cs
      else (case file_lines cs of
              [] \<Rightarrow> [[c]]
            | l # ls \<Rightarrow> (c # l) # ls))"

definition text_lines :: "byte list \<Rightarrow> string list" where
  "text_lines bs = file_lines (translate_newlines (decode_latin1 bs))"

subsection \<open>\<^verbatim>\<open>csv.reader(infile, delimiter='\t')\<close>\<close>

text \<open>The reader of \<^verbatim>\<open>Modules/_csv.c\<close> for the dialect in use: delimiter tab, quotechar
  \<^verbatim>\<open>"\<close>, doublequote on, no escapechar, no skipinitialspace, QUOTE_MINIMAL, not strict.
  The three escape states of the C parser need an escapechar and are left out.\<close>

datatype ParserState =
    START_RECORD
  | START_FIELD
  | IN_FIELD
  | IN_QUOTED_FIELD
  | QUOTE_IN_QUOTED_FIELD
  | EAT_CRNL

record ReaderObj =
  state :: ParserState
  rfields :: "string list"
  rfield :: string

definition field_limit :: nat where
  "field_limit = 128 * 1024"

definition delimiter :: char where
  "delimiter = TAB"

definition quotechar :: char where
  "quotechar = DQUOTE"

definition parse_reset :: ReaderObj where
  "parse_reset = \<lparr>state = START_RECORD, rfields = [], rfield = []\<rparr>"

definition parse_add_char :: "ReaderObj \<Rightarrow> char \<Rightarrow> error + ReaderObj" where
  "parse_add_char self c =
     (if length (rfield self) \<ge> field_limit then Inl CsvFieldLimit
      else Inr (self\<lparr>rfield := rfield self @ [c]\<rparr>))"

definition parse_save_field :: "ReaderObj \<Rightarrow> ReaderObj" where
  "parse_save_field self = self\<lparr>rfields := rfields self @ [rfield self], rfield := []\<rparr>"

definition then_state :: "ParserState \<Rightarrow> error + ReaderObj \<Rightarrow> error + ReaderObj" where
  "then_state s res = (case res of Inl e \<Rightarrow> Inl e | Inr self \<Rightarrow> Inr (self\<lparr>state := s\<rparr>))"

text \<open>\<open>parse_process_char\<close>: one step of the parser. \<open>None\<close> is the EOL pseudo-character
  sent after the last character of every line. \<open>case_START_FIELD\<close> is the branch that
  START_RECORD falls through to.\<close>

fun case_START_FIELD :: "ReaderObj \<Rightarrow> char option \<Rightarrow> error + ReaderObj" where
  "case_START_FIELD self None = Inr ((parse_save_field self)\<lparr>state := START_RECORD\<rparr>)"
| "case_START_FIELD self (Some c) =
     (if c = LF \<or> c = CR then Inr ((parse_save_field self)\<lparr>state := EAT_CRNL\<rparr>)
      else if c = quotechar then Inr (self\<lparr>state := IN_QUOTED_FIELD\<rparr>)
      else if c = delimiter then Inr (parse_save_field self)
      else then_state IN_FIELD (parse_add_char self c))"

fun parse_process_char :: "ReaderObj \<Rightarrow> char option \<Rightarrow> error + ReaderObj" where
  "parse_process_char self c =
     (case state self of
        START_RECORD \<Rightarrow>
          (case c of
             None \<Rightarrow> Inr self
           | Some ch \<Rightarrow>
               if ch = LF \<or> ch = CR then Inr (self\<lparr>state := EAT_CRNL\<rparr>)
               else case_START_FIELD (self\<lparr>state := START_FIELD\<rparr>) c)
      | START_FIELD \<Rightarrow> case_START_FIELD self c
      | IN_FIELD \<Rightarrow>
          (case c of
             None \<Rightarrow> Inr ((parse_save_field self)\<lparr>state := START_RECORD\<rparr>)
           | Some ch \<Rightarrow>
               if ch = LF \<or> ch = CR then Inr ((parse_save_field self)\<lparr>state := EAT_CRNL\<rparr>)
               else if ch = delimiter then Inr ((parse_save_field self)\<lparr>state := START_FIELD\<rparr>)
               else parse_add_char self ch)
      | IN_QUOTED_FIELD \<Rightarrow>
          (case c of
             None \<Rightarrow> Inr self
           | Some ch \<Rightarrow>
               if ch = quotechar then Inr (self\<lparr>state := QUOTE_IN_QUOTED_FIELD\<rparr>)
               else parse_add_char self ch)
      | QUOTE_IN_QUOTED_FIELD \<Rightarrow>
          (case c of
             None \<Rightarrow> Inr ((parse_save_field self)\<lparr>state := START_RECORD\<rparr>)
           | Some ch \<Rightarrow>
               if ch = quotechar then then_state IN_QUOTED_FIELD (parse_add_char self ch)
               else if ch = delimiter then Inr ((parse_save_field self)\<lparr>state := START_FIELD\<rparr>)
               else if ch = LF \<or> ch = CR then Inr ((parse_save_field self)\<lparr>state := EAT_CRNL\<rparr>)
               else then_state IN_FIELD (parse_add_char self ch))
      | EAT_CRNL \<Rightarrow>
          (case c of
             None \<Rightarrow> Inr (self\<lparr>state := START_RECORD\<rparr>)
           | Some ch \<Rightarrow> if ch = LF \<or> ch = CR then Inr self else Inl CsvNewline))"

text \<open>The inner loop of \<open>Reader_iternext\<close>: every character of the line, then EOL.\<close>

fun process_chars :: "ReaderObj \<Rightarrow> string \<Rightarrow> error + ReaderObj" where
  "process_chars self [] = Inr self"
| "process_chars self (c # cs) =
     (case parse_process_char self (Some c) of
        Inl e \<Rightarrow> Inl e
      | Inr self' \<Rightarrow> process_chars self' cs)"

definition process_line :: "ReaderObj \<Rightarrow> string \<Rightarrow> error + ReaderObj" where
  "process_line self line =
     (case process_chars self line of
        Inl e \<Rightarrow> Inl e
      | Inr self' \<Rightarrow> parse_process_char self' None)"

text \<open>\<open>Reader_iternext\<close>, called until the lines run out. A record is complete when a line
  leaves the parser in START_RECORD; the next call starts from \<open>parse_reset\<close>. When the
  lines end inside a record (a quoted field still open, or characters collected), the
  pending field is saved and the record returned. The first error ends the iteration.\<close>

fun read_records :: "ReaderObj \<Rightarrow> string list \<Rightarrow> error + string list list" where
  "read_records self [] =
     (if rfield self \<noteq> [] \<or> state self = IN_QUOTED_FIELD
      then Inr [rfields (parse_save_field self)]
      else Inr [])"
| "read_records self (line # rest) =
     (case process_line self line of
        Inl e \<Rightarrow> Inl e
      | Inr self' \<Rightarrow>
          if state self' \<noteq> START_RECORD then read_records self' rest
          else (case read_records parse_reset rest of
                  Inl e \<Rightarrow> Inl e
                | Inr rows \<Rightarrow> Inr (rfields self' # rows)))"

definition csv_reader :: "string list \<Rightarrow> error + string list list" where
  "csv_reader lines = read_records parse_reset lines"

subsection \<open>\<^verbatim>\<open>csv.DictReader(infile, delimiter='\t')\<close>\<close>

text \<open>The values a row dictionary can hold: \<^verbatim>\<open>None\<close> (the default \<^verbatim>\<open>restval\<close>), a field,
  or the list of surplus fields. A key is a header name or \<^verbatim>\<open>None\<close> (the default
  \<^verbatim>\<open>restkey\<close>). A Python \<^verbatim>\<open>dict\<close> keeps insertion order: assigning to a key that is present
  replaces the value in place, a new key goes to the end.\<close>

datatype pyval = PNone | PStr string | PList "string list"

type_synonym pydict = "(string option \<times> pyval) list"

fun dict_setitem :: "string option \<Rightarrow> pyval \<Rightarrow> pydict \<Rightarrow> pydict" where
  "dict_setitem k v [] = [(k, v)]"
| "dict_setitem k v ((k', v') # d) =
     (if k' = k then (k', v) # d else (k', v') # dict_setitem k v d)"

fun dict_get :: "pydict \<Rightarrow> string option \<Rightarrow> pyval option" where
  "dict_get [] k = None"
| "dict_get ((k', v') # d) k = (if k' = k then Some v' else dict_get d k)"

text \<open>\<^verbatim>\<open>dict(zip(self.fieldnames, row))\<close>\<close>

fun dict_zip :: "pydict \<Rightarrow> string list \<Rightarrow> string list \<Rightarrow> pydict" where
  "dict_zip d (k # ks) (v # vs) = dict_zip (dict_setitem (Some k) (PStr v) d) ks vs"
| "dict_zip d _ _ = d"

text \<open>\<^verbatim>\<open>for key in self.fieldnames[lr:]: d[key] = self.restval\<close>\<close>

fun fill_restval :: "pydict \<Rightarrow> string list \<Rightarrow> pydict" where
  "fill_restval d [] = d"
| "fill_restval d (key # keys) = fill_restval (dict_setitem (Some key) PNone d) keys"

text \<open>The body of \<open>DictReader.__next__\<close> after a non-empty row has been fetched.\<close>

definition DictReader_row :: "string list \<Rightarrow> string list \<Rightarrow> pydict" where
  "DictReader_row fieldnames row =
     (let d = dict_zip [] fieldnames row;
          lf = length fieldnames;
          lr = length row
      in if lf < lr then dict_setitem None (PList (drop lf row)) d
         else if lf > lr then fill_restval d (drop lr fieldnames)
         else d)"

text \<open>The first record is taken as \<open>fieldnames\<close>, whatever it holds; after that every
  record equal to \<open>[]\<close> is skipped (\<^verbatim>\<open>while row == []: row = next(self.reader)\<close>).\<close>

definition DictReader :: "string list list \<Rightarrow> pydict list" where
  "DictReader records =
     (case records of
        [] \<Rightarrow> []
      | fieldnames # rows \<Rightarrow> map (DictReader_row fieldnames) (filter (\<lambda>row. row \<noteq> []) rows))"


subsection \<open>\<^verbatim>\<open>csv.writer(outfile)\<close> and \<^verbatim>\<open>writer.writerow(row)\<close>\<close>

text \<open>\<open>join\<close> is \<^verbatim>\<open>sep.join(parts)\<close>.\<close>

fun join :: "string \<Rightarrow> string list \<Rightarrow> string" where
  "join sep [] = []"
| "join sep [x] = x"
| "join sep (x # y # zs) = x @ sep @ join sep (y # zs)"

text \<open>The writer uses the \<^verbatim>\<open>excel\<close> dialect unchanged: delimiter comma, QUOTE_MINIMAL,
  doublequote, line terminator \<^verbatim>\<open>\r\n\<close>. A field is quoted when it holds the delimiter,
  the quote character or a character of the line terminator; every quote character in it
  is doubled.\<close>

definition needs_quotes :: "char \<Rightarrow> bool" where
  "needs_quotes c = (c = CHR '','' \<or> c = DQUOTE \<or> c = CR \<or> c = LF)"

definition join_append :: "string \<Rightarrow> string" where
  "join_append fld =
     (let data = concat (map (\<lambda>c. if c = DQUOTE then [DQUOTE, DQUOTE] else [c]) fld)
      in if list_ex needs_quotes fld then [DQUOTE] @ data @ [DQUOTE] else data)"

text \<open>A record of one empty field would be an empty line; the writer emits \<^verbatim>\<open>""\<close> for it
  (\<^verbatim>\<open>if (self->num_fields > 0 && self->rec_len == 0)\<close>).\<close>

definition writerow :: "string list \<Rightarrow> string" where
  "writerow row =
     (let rec = join '','' (map join_append row)
      in (if row \<noteq> [] \<and> rec = [] then [DQUOTE, DQUOTE] else rec) @ [CR, LF])"

subsection \<open>Writing text: \<^verbatim>\<open>open(output_file, 'w', encoding='utf-8')\<close>\<close>

text \<open>UTF-8 of a code point below 256: one byte below 128, two bytes from 128 on.\<close>

definition utf8_char :: "char \<Rightarrow> byte list" where
  "utf8_char c =
     (let n = (of_char c :: nat)
      in if n < 128 then [of_nat n]
         else [of_nat (192 + n div 64), of_nat (128 + n mod 64)])"

definition encode_utf8 :: "string \<Rightarrow> byte list" where
  "encode_utf8 s = concat (map utf8_char s)"

subsection \<open>\<^verbatim>\<open>json.dump(data, outfile, indent=4)\<close>\<close>

definition hex_digit :: "nat \<Rightarrow> char" where
  "hex_digit n = ''0123456789abcdef'' ! (n mod 16)"

text \<open>\<open>py_encode_basestring_ascii\<close>: \<open>ensure_ascii\<close> is on by default, so every character
  outside \<^verbatim>\<open>' '..'~'\<close> is escaped, as are the quote and the backslash.\<close>

definition escape_ascii :: "char \<Rightarrow> string" where
  "escape_ascii c =
     (let n = (of_char c :: nat)
      in if c = BACKSLASH then [BACKSLASH, BACKSLASH]
         else if c = DQUOTE then [BACKSLASH, DQUOTE]
         else if c = CHR 0x08 then [BACKSLASH, CHR ''b'']
         else if c = CHR 0x0C then [BACKSLASH, CHR ''f'']
         else if c = LF then [BACKSLASH, CHR ''n'']
         else if c = CR then [BACKSLASH, CHR ''r'']
         else if c = TAB then [BACKSLASH, CHR ''t'']
         else if n < 32 \<or> 126 < n
           then [BACKSLASH, CHR ''u'', CHR ''0'', CHR ''0'', hex_digit (n div 16), hex_digit (n mod 16)]
         else [c])"

definition encode_basestring_ascii :: "string \<Rightarrow> string" where
  "encode_basestring_ascii s = [DQUOTE] @ concat (map escape_ascii s) @ [DQUOTE]"

definition newline_indent :: "nat \<Rightarrow> string" where
  "newline_indent level = LF # replicate (4 * level) CHR '' ''"

text \<open>\<open>_iterencode_list\<close> on the list of surplus fields, \<open>_iterencode_dict\<close> on a row, and
  \<open>_iterencode_list\<close> on the list of rows; \<open>level\<close> is \<open>_current_indent_level\<close> on entry.
  A key that is \<^verbatim>\<open>None\<close> is written as the string \<^verbatim>\<open>null\<close>.\<close>

definition iterencode_strings :: "string list \<Rightarrow> nat \<Rightarrow> string" where
  "iterencode_strings lst level =
     (if lst = [] then ''[]''
      else ''['' @ newline_indent (level + 1)
           @ join ('','' @ newline_indent (level + 1)) (map encode_basestring_ascii lst)
           @ newline_indent level @ '']'')"

definition iterencode_value :: "pyval \<Rightarrow> nat \<Rightarrow> string" where
  "iterencode_value v level =
     (case v of
        PStr s \<Rightarrow> encode_basestring_ascii s
      | PNone \<Rightarrow> ''null''
      | PList lst \<Rightarrow> iterencode_strings lst level)"

definition json_key :: "string option \<Rightarrow> string" where
  "json_key key = (case key of Some s \<Rightarrow> s | None \<Rightarrow> ''null'')"

definition iterencode_dict :: "pydict \<Rightarrow> nat \<Rightarrow> string" where
  "iterencode_dict dct level =
     (if dct = [] then ''{}''
      else ''{'' @ newline_indent (level + 1)
           @ join ('','' @ newline_indent (level + 1))
               (map (\<lambda>(key, v). encode_basestring_ascii (json_key key) @ '': ''
                                  @ iterencode_value v (level + 1)) dct)
           @ newline_indent level @ ''}'')"

definition iterencode_list :: "pydict list \<Rightarrow> nat \<Rightarrow> string" where
  "iterencode_list lst level =
     (if lst = [] then ''[]''
      else ''['' @ newline_indent (level + 1)
           @ join ('','' @ newline_indent (level + 1))
               (map (\<lambda>dct. iterencode_dict dct (level + 1)) lst)
           @ newline_indent level @ '']'')"

definition json_dump :: "pydict list \<Rightarrow> string" where
  "json_dump data = iterencode_list data 0"

subsection \<open>\<^verbatim>\<open>xml.etree.ElementTree\<close>: building and writing the tree\<close>

text \<open>An element has a tag, a text and children; the program sets no attribute and no tail.
  \<^verbatim>\<open>ET.SubElement(item, key)\<close> takes any object as tag, so the tag of the child made for
  the \<^verbatim>\<open>restkey\<close> is \<^verbatim>\<open>None\<close>, and \<^verbatim>\<open>child.text = value\<close> stores any object.\<close>

datatype Element = Element (etag: "string option") (etext: pyval) (echildren: "Element list")

text \<open>\<^verbatim>\<open>elem.iter()\<close>: the tags in document order.\<close>

fun iter_tags :: "Element \<Rightarrow> string option list" where
  "iter_tags (Element t x cs) = t # concat (map iter_tags cs)"

fun string_of_nat :: "nat \<Rightarrow> string" where
  "string_of_nat n =
     (if n < 10 then [char_of (48 + n)]
      else string_of_nat (n div 10) @ [char_of (48 + n mod 10)])"

text \<open>\<^verbatim>\<open>qname[1:].rsplit("}", 1)\<close> unpacked into two names: the text before and after the
  last \<^verbatim>\<open>}\<close>, or a ValueError when there is none.\<close>

definition rsplit_brace :: "string \<Rightarrow> (string \<times> string) option" where
  "rsplit_brace s =
     (if CHR 0x7D \<in> set s
      then Some (rev (tl (dropWhile (\<lambda>c. c \<noteq> CHR 0x7D) (rev s))),
                 rev (takeWhile (\<lambda>c. c \<noteq> CHR 0x7D) (rev s)))
      else None)"

definition namespace_map :: "(string \<times> string) list" where
  "namespace_map =
     [(''http://www.w3.org/XML/1998/namespace'', ''xml''),
      (''http://www.w3.org/1999/xhtml'', ''html''),
      (''http://www.w3.org/1999/02/22-rdf-syntax-ns#'', ''rdf''),
      (''http://schemas.xmlsoap.org/wsdl/'', ''wsdl''),
      (''http://www.w3.org/2001/XMLSchema'', ''xs''),
      (''http://www.w3.org/2001/XMLSchema-instance'', ''xsi''),
      (''http://purl.org/dc/elements/1.1/'', ''dc'')]"

text \<open>The two tables of \<open>_namespaces\<close>: \<open>qnames\<close> from a tag to its written form,
  \<open>namespaces\<close> from a URI to its prefix, both in insertion order.\<close>

type_synonym ns_tables = "(string \<times> string) list \<times> (string \<times> string) list"

definition add_qname :: "string \<Rightarrow> ns_tables \<Rightarrow> error + ns_tables" where
  "add_qname qname tabs =
     (let (qnames, namespaces) = tabs
      in if take 1 qname = ''{''
         then (case rsplit_brace (drop 1 qname) of
                 None \<Rightarrow> Inl ValueError
               | Some (uri, tg) \<Rightarrow>
                   let (prefix, namespaces') =
                         (case map_of namespaces uri of
                            Some p \<Rightarrow> (p, namespaces)
                          | None \<Rightarrow>
                              let p = (case map_of namespace_map uri of
                                         Some q \<Rightarrow> q
                                       | None \<Rightarrow> ''ns'' @ string_of_nat (length namespaces))
                              in (p, if p \<noteq> ''xml'' then namespaces @ [(uri, p)] else namespaces))
                   in Inr (qnames @ [(qname, if prefix \<noteq> [] then prefix @ '':'' @ tg else tg)],
                           namespaces'))
         else Inr (qnames @ [(qname, qname)], namespaces))"

fun namespaces_loop :: "string option list \<Rightarrow> ns_tables \<Rightarrow> error + ns_tables" where
  "namespaces_loop [] tabs = Inr tabs"
| "namespaces_loop (None # tags) tabs = namespaces_loop tags tabs"
| "namespaces_loop (Some t # tags) tabs =
     (if t \<in> fst ` set (fst tabs) then namespaces_loop tags tabs
      else (case add_qname t tabs of
              Inl e \<Rightarrow> Inl e
            | Inr tabs' \<Rightarrow> namespaces_loop tags tabs'))"

definition namespaces_of :: "Element \<Rightarrow> error + ns_tables" where
  "namespaces_of elem = namespaces_loop (iter_tags elem) ([], [])"

fun replace_char :: "char \<Rightarrow> string \<Rightarrow> string \<Rightarrow> string" where
  "replace_char c new s = concat (map (\<lambda>d. if d = c then new else [d]) s)"

definition escape_cdata_str :: "string \<Rightarrow> string" where
  "escape_cdata_str s =
     replace_char (CHR ''>'') ''&gt;'' (replace_char (CHR ''<'') ''&lt;''
       (replace_char (CHR ''&'') ''&amp;'' s))"

definition escape_attrib :: "string \<Rightarrow> string" where
  "escape_attrib s =
     replace_char TAB ''&#09;'' (replace_char LF ''&#10;'' (replace_char CR ''&#13;''
       (replace_char DQUOTE ''&quot;'' (escape_cdata_str s))))"

text \<open>\<^verbatim>\<open>if text: write(_escape_cdata(text))\<close>. A text that is a list fails either inside
  \<open>_escape_cdata\<close> or in \<^verbatim>\<open>write\<close>, with a TypeError both times.\<close>

definition truthy :: "pyval \<Rightarrow> bool" where
  "truthy v = (case v of PNone \<Rightarrow> False | PStr s \<Rightarrow> s \<noteq> [] | PList l \<Rightarrow> l \<noteq> [])"

definition write_text :: "pyval \<Rightarrow> error + string" where
  "write_text v =
     (if truthy v
      then (case v of PStr s \<Rightarrow> Inr (escape_cdata_str s) | _ \<Rightarrow> Inl TypeError)
      else Inr [])"

text \<open>What a sequence of writes leaves when every one succeeds; the first failure aborts.\<close>

fun write_all :: "(error + string) list \<Rightarrow> error + string" where
  "write_all [] = Inr []"
| "write_all (Inl e # rs) = Inl e"
| "write_all (Inr s # rs) = (case write_all rs of Inl e \<Rightarrow> Inl e | Inr t \<Rightarrow> Inr (s @ t))"

text \<open>\<^verbatim>\<open>sorted(namespaces.items(), key=lambda x: x[1])\<close>: a stable sort on the prefix,
  strings compared by code point.\<close>

fun insort_prefix :: "string \<times> string \<Rightarrow> (string \<times> string) list \<Rightarrow> (string \<times> string) list" where
  "insort_prefix x [] = [x]"
| "insort_prefix x (y # ys) =
     (if lexordp (\<lambda>a b. (of_char a :: nat) < of_char b) (snd y) (snd x)
      then y # insort_prefix x ys else x # y # ys)"

definition xmlns_attributes :: "(string \<times> string) list \<Rightarrow> string" where
  "xmlns_attributes namespaces =
     concat (map (\<lambda>(v, k). '' xmlns'' @ (if k \<noteq> [] then '':'' @ k else k) @ ''=''
                            @ [DQUOTE] @ escape_attrib v @ [DQUOTE])
                 (foldr insort_prefix namespaces []))"

text \<open>\<open>_serialize_xml\<close> with \<^verbatim>\<open>short_empty_elements=True\<close>. Only the root is passed the
  namespace table.\<close>

fun serialize_xml :: "(string \<times> string) list \<Rightarrow> (string \<times> string) list \<Rightarrow> Element \<Rightarrow> error + string" where
  "serialize_xml qnames namespaces (Element t x cs) =
     (case t of
        None \<Rightarrow> write_all (write_text x # map (serialize_xml qnames []) cs)
      | Some name \<Rightarrow>
          (case map_of qnames name of
             None \<Rightarrow> Inl KeyError
           | Some tg \<Rightarrow>
               if truthy x \<or> cs \<noteq> []
               then write_all ([Inr (''<'' @ tg @ xmlns_attributes namespaces @ ''>''), write_text x]
                               @ map (serialize_xml qnames []) cs
                               @ [Inr (''</'' @ tg @ ''>'')])
               else Inr (''<'' @ tg @ xmlns_attributes namespaces @ '' />'')))"

text \<open>\<^verbatim>\<open>tree.write(output_file, encoding='utf-8')\<close>: no XML declaration for UTF-8.\<close>

definition tree_write :: "Element \<Rightarrow> error + string" where
  "tree_write root =
     (case namespaces_of root of
        Inl e \<Rightarrow> Inl e
      | Inr (qnames, namespaces) \<Rightarrow> serialize_xml qnames namespaces root)"

text \<open>Lines 60 to 70 of \<open>convert_to_xml\<close>.\<close>

definition make_item :: "pydict \<Rightarrow> Element" where
  "make_item row = Element (Some ''item'') PNone (map (\<lambda>(key, v). Element key v []) row)"

definition make_root :: "pydict list \<Rightarrow> Element" where
  "make_root rows = Element (Some ''root'') PNone (map make_item rows)"


subsection \<open>The three converters\<close>

text \<open>The file system maps a path to the bytes of the file there. Opening a missing file
  for reading raises; opening for writing creates or truncates, and is taken to succeed.
  How far a file was written when an exception ends the run is not tracked: a converter
  returns the exception alone.\<close>

type_synonym filesystem = "string \<Rightarrow> byte list option"

text \<open>Lines 17 to 24. Both files are opened before the first line is read, so when
  \<open>output_file\<close> is the input file itself the reader finds it already truncated.\<close>

definition convert_to_csv :: "string \<Rightarrow> string \<Rightarrow> filesystem \<Rightarrow> error + filesystem" where
  "convert_to_csv input_file output_file fs =
     (case fs input_file of
        None \<Rightarrow> Inl FileNotFoundError
      | Some _ \<Rightarrow>
          let fs1 = fs(output_file \<mapsto> [])
          in (case fs1 input_file of
                None \<Rightarrow> Inl FileNotFoundError
              | Some content \<Rightarrow>
                  (case csv_reader (text_lines content) of
                     Inl e \<Rightarrow> Inl e
                   | Inr rows \<Rightarrow>
                       Inr (fs1(output_file \<mapsto> encode_utf8 (concat (map writerow rows)))))))"

text \<open>Lines 35 to 40, shared with lines 55 to 57 and the loop header of line 63: the rows
  of the \<open>DictReader\<close> over the decoded input.\<close>

definition read_dict_rows :: "byte list \<Rightarrow> error + pydict list" where
  "read_dict_rows content =
     (case csv_reader (text_lines content) of
        Inl e \<Rightarrow> Inl e
      | Inr records \<Rightarrow> Inr (DictReader records))"

text \<open>Lines 35 to 44. The output is opened only after every row has been read.\<close>

definition convert_to_json :: "string \<Rightarrow> string \<Rightarrow> filesystem \<Rightarrow> error + filesystem" where
  "convert_to_json input_file output_file fs =
     (case fs input_file of
        None \<Rightarrow> Inl FileNotFoundError
      | Some content \<Rightarrow>
          (case read_dict_rows content of
             Inl e \<Rightarrow> Inl e
           | Inr data \<Rightarrow> Inr (fs(output_file \<mapsto> encode_utf8 (json_dump data)))))"

text \<open>Lines 55 to 77. The tree is complete before the output is opened.\<close>

definition convert_to_xml :: "string \<Rightarrow> string \<Rightarrow> filesystem \<Rightarrow> error + filesystem" where
  "convert_to_xml input_file output_file fs =
     (case fs input_file of
        None \<Rightarrow> Inl FileNotFoundError
      | Some content \<Rightarrow>
          (case read_dict_rows content of
             Inl e \<Rightarrow> Inl e
           | Inr rows \<Rightarrow>
               (case tree_write (make_root rows) of
                  Inl e \<Rightarrow> Inl e
                | Inr doc \<Rightarrow> Inr (fs(output_file \<mapsto> encode_utf8 doc)))))"

subsection \<open>\<open>main\<close>\<close>

text \<open>A run ends with an exit status, the lines printed to standard output and the file
  system it leaves, or with an uncaught exception.\<close>

datatype outcome = Exit nat "string list" filesystem | Uncaught error

definition finish :: "string \<Rightarrow> error + filesystem \<Rightarrow> outcome" where
  "finish output_file res =
     (case res of
        Inl e \<Rightarrow> Uncaught e
      | Inr fs' \<Rightarrow> Exit 0 [''Conversion complete. Output saved to '' @ output_file] fs')"

text \<open>\<open>argv\<close> is \<^verbatim>\<open>sys.argv\<close>: the script name, then the positional arguments.\<close>

definition main :: "string list \<Rightarrow> filesystem \<Rightarrow> outcome" where
  "main argv fs =
     (if length argv \<noteq> 3
      then Exit 1 [''Usage: python script.py <input_file> <-c|-j|-x>''] fs
      else
        let input_file = argv ! 1;
            format_flag = argv ! 2
        in if format_flag = ''-c''
           then finish ''output.csv'' (convert_to_csv input_file ''output.csv'' fs)
           else if format_flag = ''-j''
           then finish ''output.json'' (convert_to_json input_file ''output.json'' fs)
           else if format_flag = ''-x''
           then finish ''output.xml'' (convert_to_xml input_file ''output.xml'' fs)
           else Exit 1 [''Invalid format flag. Use -c for CSV, -j for JSON, or -x for XML.''] fs)"

subsection \<open>Notation for examples\<close>

text \<open>The bytes of a text whose code points are all below 256, one byte each; and whether
  a word occurs in a message.\<close>

definition latin1 :: "string \<Rightarrow> byte list" where
  "latin1 s = map of_char s"

fun contains :: "string \<Rightarrow> string \<Rightarrow> bool" where
  "contains [] w = (w = [])"
| "contains (c # cs) w = (take (length w) (c # cs) = w \<or> contains cs w)"

subsection \<open>The XML document of the specification\<close>

text \<open>The specification's document for a tree: an element is its start tag, its text with
  the markup characters escaped, its children in order and its end tag; an element with
  neither text nor children is written as one self-closing tag. It is read from the
  specification (component 4.4 and scenario 3) to be compared with \<open>tree_write\<close>, on trees
  whose tags are plain names (no \<^verbatim>\<open>{uri}\<close> prefix) and whose texts are strings or absent.\<close>

fun document_text :: "Element \<Rightarrow> string" where
  "document_text (Element t x cs) =
     (let name = (case t of Some n \<Rightarrow> n | None \<Rightarrow> []);
          body = (case x of PStr s \<Rightarrow> escape_cdata_str s | _ \<Rightarrow> [])
                 @ concat (map document_text cs)
      in if body = [] \<and> cs = [] then ''<'' @ name @ '' />''
         else ''<'' @ name @ ''>'' @ body @ ''</'' @ name @ ''>'')"

definition plain_name :: "string \<Rightarrow> bool" where
  "plain_name n = (take 1 n \<noteq> ''{'')"

fun plain_tree :: "Element \<Rightarrow> bool" where
  "plain_tree (Element t x cs) =
     ((case t of Some n \<Rightarrow> plain_name n | None \<Rightarrow> False)
      \<and> (case x of PList l \<Rightarrow> False | _ \<Rightarrow> True)
      \<and> list_all plain_tree cs)"

subsection \<open>Auxiliary notions for the properties\<close>


text \<open>What iterating over a text file yields: non-empty lines without \<^verbatim>\<open>\r\<close>, with
  \<^verbatim>\<open>\n\<close> at most as the last character.\<close>

definition line_ok :: "string \<Rightarrow> bool" where
  "line_ok l = (l \<noteq> [] \<and> CR \<notin> set l \<and> LF \<notin> set (butlast l))"

text \<open>The state of the reader object after it has consumed the given lines, reset at every
  completed record as \<open>Reader_iternext\<close> does on entry. It is \<open>parse_reset\<close> exactly when
  the lines end on a record boundary, with no quoted field left open.\<close>

fun reader_after :: "ReaderObj \<Rightarrow> string list \<Rightarrow> error + ReaderObj" where
  "reader_after self [] = Inr self"
| "reader_after self (line # rest) =
     (case process_line self line of
        Inl e \<Rightarrow> Inl e
      | Inr self' \<Rightarrow> reader_after (if state self' = START_RECORD then parse_reset else self') rest)"

text \<open>The specification's reading of a line (component 4.1): the text of the line, without
  its line end, split at every tab; an empty line has no field at all.\<close>

fun split_from :: "string \<Rightarrow> string \<Rightarrow> string list" where
  "split_from cur [] = [cur]"
| "split_from cur (c # cs) = (if c = TAB then cur # split_from [] cs else split_from (cur @ [c]) cs)"

definition line_body :: "string \<Rightarrow> string" where
  "line_body l = (if l \<noteq> [] \<and> last l = LF then butlast l else l)"

definition split_line :: "string \<Rightarrow> string list" where
  "split_line l = (if line_body l = [] then [] else split_from [] (line_body l))"

text \<open>A line that the specification and the reader read alike: a line of the file with no
  quote character in it, none of whose fields is longer than the field limit.\<close>

definition plain_line :: "string \<Rightarrow> bool" where
  "plain_line l =
     (line_ok l \<and> DQUOTE \<notin> set l \<and> (\<forall>f \<in> set (split_line l). length f \<le> field_limit))"



section \<open>Properties\<close>

subsection \<open>Evaluation on concrete inputs\<close>

lemma unat_of_char: "unat (of_char c :: byte) = of_char c"
proof -
  have "(of_char c :: byte) = of_nat (of_char c)" by (simp add: of_nat_of_char)
  then show ?thesis by (simp add: unat_of_nat)
qed

lemma decode_latin1_latin1: "decode_latin1 (latin1 s) = s"
  by (induction s) (simp_all add: decode_latin1_def latin1_def unat_of_char)

lemma newline_indent_levels:
  "newline_indent 0 = [LF]"
  "newline_indent (Suc 0) = LF # ''    ''"
  "newline_indent (Suc (Suc 0)) = LF # ''        ''"
  "newline_indent (Suc (Suc (Suc 0))) = LF # ''            ''"
  by (simp_all add: newline_indent_def eval_nat_numeral)

lemmas reader_eval = csv_reader_def parse_reset_def process_line_def parse_add_char_def
  parse_save_field_def then_state_def field_limit_def delimiter_def quotechar_def

lemmas dict_eval = read_dict_rows_def DictReader_def DictReader_row_def

lemmas json_eval = json_dump_def iterencode_list_def iterencode_dict_def iterencode_value_def
  iterencode_strings_def json_key_def encode_basestring_ascii_def escape_ascii_def
  hex_digit_def newline_indent_levels

lemmas input_eval = text_lines_def decode_latin1_latin1

subsection \<open>Row dictionaries\<close>

lemma dict_get_setitem:
  "dict_get (dict_setitem k v d) k' = (if k' = k then Some v else dict_get d k')"
  by (induction d) auto

lemma keys_setitem: "fst ` set (dict_setitem k v d) = insert k (fst ` set d)"
proof (induction d)
  case (Cons p d)
  then show ?case by (cases p) (simp, blast)
qed simp

lemma setitem_fresh: "k \<notin> fst ` set d \<Longrightarrow> dict_setitem k v d = d @ [(k, v)]"
  by (induction d) auto

lemma setitem_mem: "(k, v) \<in> set (dict_setitem k v d)"
  by (induction d) auto

lemma keys_dict_zip:
  "fst ` set (dict_zip d ks vs) = fst ` set d \<union> Some ` set (take (length vs) ks)"
  by (induction d ks vs rule: dict_zip.induct) (auto simp: keys_setitem)

lemma keys_fill_restval: "fst ` set (fill_restval d ks) = fst ` set d \<union> Some ` set ks"
  by (induction d ks rule: fill_restval.induct) (auto simp: keys_setitem)

lemma dict_get_fill_restval:
  "dict_get (fill_restval d ks) (Some k) = (if k \<in> set ks then Some PNone else dict_get d (Some k))"
  by (induction d ks rule: fill_restval.induct) (auto simp: dict_get_setitem)

lemma dict_zip_distinct:
  "distinct ks \<Longrightarrow> Some ` set ks \<inter> fst ` set d = {} \<Longrightarrow>
   dict_zip d ks vs = d @ map (\<lambda>(k, v). (Some k, PStr v)) (zip ks vs)"
proof (induction d ks vs rule: dict_zip.induct)
  case (1 d k ks v vs)
  have fresh: "Some k \<notin> fst ` set d" using 1(3) by auto
  have "Some ` set ks \<inter> fst ` set (dict_setitem (Some k) (PStr v) d) = {}"
    using 1(2,3) by (auto simp: keys_setitem)
  with 1 show ?case by (simp add: setitem_fresh [OF fresh])
qed auto

lemma keys_DictReader_row:
  "fst ` set (DictReader_row fieldnames row) =
     (if length row \<le> length fieldnames then Some ` set fieldnames
      else insert None (Some ` set fieldnames))"
proof -
  have "set (take (length row) fieldnames) \<union> set (drop (length row) fieldnames) = set fieldnames"
    by (metis append_take_drop_id set_append)
  then have "Some ` set (take (length row) fieldnames) \<union> Some ` set (drop (length row) fieldnames)
             = Some ` set fieldnames"
    by (metis image_Un)
  then show ?thesis
    by (auto simp: DictReader_row_def Let_def keys_setitem keys_dict_zip keys_fill_restval)
qed

lemma read_dict_rows_eq:
  "csv_reader (text_lines content) = Inr (fieldnames # rows) \<Longrightarrow>
   read_dict_rows content = Inr (map (DictReader_row fieldnames) (filter (\<lambda>row. row \<noteq> []) rows))"
  by (simp add: read_dict_rows_def DictReader_def)

subsection \<open>Command line\<close>

text \<open>
  Claim C8. When the number of positional arguments is not two, \<open>main\<close> prints the usage
  message to standard output and exits with status 1, and the file system is left as it
  was: no output file is created or written.
\<close>

theorem wrong_argument_count_exits:
  "length args \<noteq> 2 \<Longrightarrow>
   main (script # args) fs = Exit 1 [''Usage: python script.py <input_file> <-c|-j|-x>''] fs"
  by (simp add: main_def)

theorem wrong_argument_count_exits_witness:
  "length [''in.tsv''] \<noteq> 2 \<and>
   main [''Formater.py'', ''in.tsv''] Map.empty
     = Exit 1 [''Usage: python script.py <input_file> <-c|-j|-x>''] Map.empty"
  using wrong_argument_count_exits [of "[''in.tsv'']" "''Formater.py''" Map.empty] by simp

text \<open>
  Claim C9. With two positional arguments of which the second is none of \<^verbatim>\<open>-c\<close>,
  \<^verbatim>\<open>-j\<close>, \<^verbatim>\<open>-x\<close>, \<open>main\<close> exits with status 1 after printing one message, in which
  each of the three valid flags occurs, and the file system is left as it was.
\<close>

theorem invalid_flag_exits:
  "format_flag \<noteq> ''-c'' \<and> format_flag \<noteq> ''-j'' \<and> format_flag \<noteq> ''-x'' \<Longrightarrow>
   main [script, input_file, format_flag] fs
     = Exit 1 [''Invalid format flag. Use -c for CSV, -j for JSON, or -x for XML.''] fs
   \<and> contains ''Invalid format flag. Use -c for CSV, -j for JSON, or -x for XML.'' ''-c''
   \<and> contains ''Invalid format flag. Use -c for CSV, -j for JSON, or -x for XML.'' ''-j''
   \<and> contains ''Invalid format flag. Use -c for CSV, -j for JSON, or -x for XML.'' ''-x''"
  by (simp add: main_def)

theorem invalid_flag_exits_witness:
  "''-z'' \<noteq> ''-c'' \<and> ''-z'' \<noteq> ''-j'' \<and> ''-z'' \<noteq> ''-x''
   \<and> main [''Formater.py'', ''in.tsv'', ''-z''] Map.empty
     = Exit 1 [''Invalid format flag. Use -c for CSV, -j for JSON, or -x for XML.''] Map.empty"
  using invalid_flag_exits [of "''-z''" "''Formater.py''" "''in.tsv''" Map.empty] by simp

subsection \<open>Rows shorter than the header\<close>

text \<open>
  Claim C1, as stated: under \<^verbatim>\<open>-j\<close> a data row with fewer fields than the header gives an
  object from which the trailing header keys are absent. It fails: for the header
  \<^verbatim>\<open>a<TAB>b\<close> and the row \<^verbatim>\<open>1\<close> the object written has the key \<^verbatim>\<open>b\<close>, with the value
  \<^verbatim>\<open>null\<close>.
\<close>

theorem short_row_key_present_counterexample:
  "main [''Formater.py'', ''in.tsv'', ''-j'']
        [''in.tsv'' \<mapsto> latin1 (''a'' @ [TAB] @ ''b'' @ [LF] @ ''1'' @ [LF])]
   = Exit 0 [''Conversion complete. Output saved to output.json'']
      [''in.tsv'' \<mapsto> latin1 (''a'' @ [TAB] @ ''b'' @ [LF] @ ''1'' @ [LF]),
       ''output.json'' \<mapsto> encode_utf8
          (''['' @ [LF] @
           ''    {'' @ [LF] @
           ''        '' @ [DQUOTE] @ ''a'' @ [DQUOTE] @ '': '' @ [DQUOTE] @ ''1'' @ [DQUOTE] @ '','' @ [LF] @
           ''        '' @ [DQUOTE] @ ''b'' @ [DQUOTE] @ '': null'' @ [LF] @
           ''    }'' @ [LF] @
           '']'')]"
  by (simp add: main_def finish_def convert_to_json_def input_eval reader_eval dict_eval json_eval)

text \<open>
  Claim C1, amended. Whenever the reader returns a header and data records, the rows
  handed to \<^verbatim>\<open>json.dump\<close> are the dictionaries of the non-empty records, and in the
  dictionary of a record with fewer fields than the header every trailing header key is
  present with the value \<^verbatim>\<open>None\<close>, which \<^verbatim>\<open>json.dump\<close> writes as \<^verbatim>\<open>null\<close>.
\<close>

theorem short_row_keys_null:
  assumes "csv_reader (text_lines content) = Inr (fieldnames # rows)"
  shows "read_dict_rows content
           = Inr (map (DictReader_row fieldnames) (filter (\<lambda>row. row \<noteq> []) rows))
         \<and> (\<forall>row \<in> set rows. length row < length fieldnames \<longrightarrow>
              (\<forall>key \<in> set (drop (length row) fieldnames).
                 dict_get (DictReader_row fieldnames row) (Some key) = Some PNone))
         \<and> (\<forall>level. iterencode_value PNone level = ''null'')"
  using assms
  by (auto simp: read_dict_rows_eq DictReader_row_def Let_def dict_get_fill_restval iterencode_value_def)

theorem short_row_keys_null_witness:
  "csv_reader (text_lines (latin1 (''a'' @ [TAB] @ ''b'' @ [LF] @ ''1'' @ [LF])))
     = Inr [[''a'', ''b''], [''1'']]
   \<and> read_dict_rows (latin1 (''a'' @ [TAB] @ ''b'' @ [LF] @ ''1'' @ [LF]))
     = Inr [DictReader_row [''a'', ''b''] [''1'']]
   \<and> dict_get (DictReader_row [''a'', ''b''] [''1'']) (Some ''b'') = Some PNone"
proof -
  have h: "csv_reader (text_lines (latin1 (''a'' @ [TAB] @ ''b'' @ [LF] @ ''1'' @ [LF])))
             = Inr [[''a'', ''b''], [''1'']]"
    by (simp add: input_eval reader_eval)
  from short_row_keys_null [OF h] show ?thesis
    using h by simp
qed

subsection \<open>Writing the element tree: failure\<close>

lemma write_all_isl: "isl (write_all rs) \<longleftrightarrow> (\<exists>r \<in> set rs. isl r)"
  by (induction rs rule: write_all.induct) (auto split: sum.splits)

lemma serialize_xml_child_fails:
  assumes "c \<in> set cs" and "isl (serialize_xml qnames [] c)"
  shows "isl (serialize_xml qnames namespaces (Element t x cs))"
proof -
  have ne: "cs \<noteq> []" using assms(1) by auto
  have ex: "\<exists>r \<in> set (map (serialize_xml qnames []) cs). isl r"
    using assms by auto
  show ?thesis
  proof (cases t)
    case None
    then show ?thesis using ex by (simp add: write_all_isl del: write_all.simps)
  next
    case (Some name)
    then show ?thesis
      using ex ne
      by (cases "map_of qnames name") (simp_all add: write_all_isl del: write_all.simps)
  qed
qed

lemma serialize_xml_rest_fails:
  "l \<noteq> [] \<Longrightarrow> isl (serialize_xml qnames [] (Element None (PList l) []))"
  by (simp add: write_text_def truthy_def)

lemma dict_get_dict_zip_None:
  "dict_get (dict_zip d ks vs) None = dict_get d None"
  by (induction d ks vs rule: dict_zip.induct) (auto simp: dict_get_setitem)

lemma long_row_dict:
  "length fieldnames < length row \<Longrightarrow>
   DictReader_row fieldnames row
     = dict_setitem None (PList (drop (length fieldnames) row)) (dict_zip [] fieldnames row)"
  by (simp add: DictReader_row_def Let_def)

lemma tree_write_long_row_fails:
  assumes "row \<in> set data" and "(None, PList l) \<in> set row" and "l \<noteq> []"
  shows "isl (tree_write (make_root data))"
proof (cases "namespaces_of (make_root data)")
  case (Inl e)
  then show ?thesis by (simp add: tree_write_def)
next
  case (Inr tabs)
  obtain qnames namespaces where tabs: "tabs = (qnames, namespaces)" by (cases tabs)
  have child: "Element None (PList l) [] \<in> set (echildren (make_item row))"
    using assms(2) by (force simp: make_item_def)
  have "isl (serialize_xml qnames [] (make_item row))"
    unfolding make_item_def
    by (rule serialize_xml_child_fails [where c = "Element None (PList l) []"])
       (use child assms(3) in \<open>auto simp: make_item_def serialize_xml_rest_fails simp del: serialize_xml.simps\<close>)
  then have "isl (serialize_xml qnames namespaces (make_root data))"
    unfolding make_root_def
    by (intro serialize_xml_child_fails [where c = "make_item row"]) (use assms(1) in auto)
  with Inr tabs show ?thesis by (simp add: tree_write_def)
qed

lemma make_item_tags: "map etag (echildren (make_item d)) = map fst d"
  by (simp add: make_item_def case_prod_beta cong: map_cong)

lemma make_item_texts: "map etext (echildren (make_item d)) = map snd d"
  by (simp add: make_item_def case_prod_beta cong: map_cong)

lemmas xml_eval = tree_write_def namespaces_of_def make_root_def make_item_def add_qname_def
  write_text_def truthy_def xmlns_attributes_def escape_cdata_str_def

subsection \<open>Rows longer than the header\<close>

text \<open>
  Claim C2, as stated: a data row with more fields than the header gives a mapping of the
  header keys only, the surplus values appearing nowhere in the output. It fails: for the
  header \<^verbatim>\<open>x<TAB>y\<close> and the row \<^verbatim>\<open>1<TAB>2<TAB>3\<close> the object written under \<^verbatim>\<open>-j\<close>
  holds the surplus value \<^verbatim>\<open>3\<close> in a list under the key \<^verbatim>\<open>null\<close>, and under \<^verbatim>\<open>-x\<close>
  the run ends in a TypeError raised while the document is written.
\<close>

theorem long_row_extras_counterexample:
  "main [''Formater.py'', ''in.tsv'', ''-j'']
        [''in.tsv'' \<mapsto> latin1 (''x'' @ [TAB] @ ''y'' @ [LF] @ ''1'' @ [TAB] @ ''2'' @ [TAB] @ ''3'' @ [LF])]
   = Exit 0 [''Conversion complete. Output saved to output.json'']
      [''in.tsv'' \<mapsto> latin1 (''x'' @ [TAB] @ ''y'' @ [LF] @ ''1'' @ [TAB] @ ''2'' @ [TAB] @ ''3'' @ [LF]),
       ''output.json'' \<mapsto> encode_utf8
          (''['' @ [LF] @
           ''    {'' @ [LF] @
           ''        '' @ [DQUOTE] @ ''x'' @ [DQUOTE] @ '': '' @ [DQUOTE] @ ''1'' @ [DQUOTE] @ '','' @ [LF] @
           ''        '' @ [DQUOTE] @ ''y'' @ [DQUOTE] @ '': '' @ [DQUOTE] @ ''2'' @ [DQUOTE] @ '','' @ [LF] @
           ''        '' @ [DQUOTE] @ ''null'' @ [DQUOTE] @ '': ['' @ [LF] @
           ''            '' @ [DQUOTE] @ ''3'' @ [DQUOTE] @ [LF] @
           ''        ]'' @ [LF] @
           ''    }'' @ [LF] @
           '']'')]
   \<and> main [''Formater.py'', ''in.tsv'', ''-x'']
        [''in.tsv'' \<mapsto> latin1 (''x'' @ [TAB] @ ''y'' @ [LF] @ ''1'' @ [TAB] @ ''2'' @ [TAB] @ ''3'' @ [LF])]
   = Uncaught TypeError"
  by (simp add: main_def finish_def convert_to_json_def convert_to_xml_def
        input_eval reader_eval dict_eval json_eval xml_eval)

text \<open>
  Claim C2, amended. A data row with more fields than the header gives a mapping whose keys
  are the header names and, besides, the key \<^verbatim>\<open>None\<close>, under which the list of the surplus
  fields is kept; for a header of distinct names the mapping is the header names paired
  with the leading fields, followed by that entry. Under \<^verbatim>\<open>-j\<close> the mapping is one of the
  objects written, its \<^verbatim>\<open>None\<close> key spelled \<^verbatim>\<open>null\<close>; under \<^verbatim>\<open>-x\<close> the entry makes the
  write of the document raise, so no XML document is produced.
\<close>

theorem long_row_extras_kept:
  assumes "fs input_file = Some content"
      and "csv_reader (text_lines content) = Inr (fieldnames # rows)"
      and "row \<in> set rows"
      and "length fieldnames < length row"
  shows "(\<exists>data. read_dict_rows content = Inr data
            \<and> DictReader_row fieldnames row \<in> set data
            \<and> convert_to_json input_file output_file fs
                = Inr (fs(output_file \<mapsto> encode_utf8 (json_dump data))))
         \<and> fst ` set (DictReader_row fieldnames row) = insert None (Some ` set fieldnames)
         \<and> dict_get (DictReader_row fieldnames row) None
             = Some (PList (drop (length fieldnames) row))
         \<and> json_key None = ''null''
         \<and> (distinct fieldnames \<longrightarrow>
               DictReader_row fieldnames row
                 = map (\<lambda>(k, v). (Some k, PStr v)) (zip fieldnames row)
                   @ [(None, PList (drop (length fieldnames) row))])
         \<and> isl (convert_to_xml input_file output_file fs)"
proof -
  let ?data = "map (DictReader_row fieldnames) (filter (\<lambda>row. row \<noteq> []) rows)"
  let ?rest = "drop (length fieldnames) row"
  have data: "read_dict_rows content = Inr ?data"
    using assms(2) by (rule read_dict_rows_eq)
  have ne: "row \<noteq> []" using assms(4) by auto
  have mem: "DictReader_row fieldnames row \<in> set ?data"
    using assms(3) ne by simp
  have rest: "?rest \<noteq> []" using assms(4) by simp
  have entry: "(None, PList ?rest) \<in> set (DictReader_row fieldnames row)"
    by (simp add: long_row_dict [OF assms(4)] setitem_mem)
  have json: "convert_to_json input_file output_file fs
                = Inr (fs(output_file \<mapsto> encode_utf8 (json_dump ?data)))"
    by (simp add: convert_to_json_def assms(1) data)
  have keys: "fst ` set (DictReader_row fieldnames row) = insert None (Some ` set fieldnames)"
    using assms(4) by (simp add: keys_DictReader_row)
  have get: "dict_get (DictReader_row fieldnames row) None = Some (PList ?rest)"
    by (simp add: long_row_dict [OF assms(4)] dict_get_setitem)
  have dist: "distinct fieldnames \<longrightarrow>
               DictReader_row fieldnames row
                 = map (\<lambda>(k, v). (Some k, PStr v)) (zip fieldnames row) @ [(None, PList ?rest)]"
  proof
    assume d: "distinct fieldnames"
    have z: "dict_zip [] fieldnames row = map (\<lambda>(k, v). (Some k, PStr v)) (zip fieldnames row)"
      using dict_zip_distinct [OF d, of "[]" row] by simp
    have "None \<notin> fst ` set (dict_zip [] fieldnames row)"
      by (simp add: keys_dict_zip)
    then show "DictReader_row fieldnames row
                 = map (\<lambda>(k, v). (Some k, PStr v)) (zip fieldnames row) @ [(None, PList ?rest)]"
      using z by (simp add: long_row_dict [OF assms(4)] setitem_fresh)
  qed
  have xml: "isl (convert_to_xml input_file output_file fs)"
    using tree_write_long_row_fails [OF mem entry rest]
    by (cases "tree_write (make_root ?data)") (simp_all add: convert_to_xml_def assms(1) data)
  show ?thesis
    using data mem json keys get dist xml by (simp add: json_key_def)
qed

theorem long_row_extras_kept_witness:
  "[''in.tsv'' \<mapsto> latin1 (''x'' @ [TAB] @ ''y'' @ [LF] @ ''1'' @ [TAB] @ ''2'' @ [TAB] @ ''3'' @ [LF])] ''in.tsv''
     = Some (latin1 (''x'' @ [TAB] @ ''y'' @ [LF] @ ''1'' @ [TAB] @ ''2'' @ [TAB] @ ''3'' @ [LF]))
   \<and> csv_reader (text_lines (latin1 (''x'' @ [TAB] @ ''y'' @ [LF] @ ''1'' @ [TAB] @ ''2'' @ [TAB] @ ''3'' @ [LF])))
     = Inr [[''x'', ''y''], [''1'', ''2'', ''3'']]
   \<and> length [''x'', ''y''] < length [''1'', ''2'', ''3'']
   \<and> distinct [''x'', ''y'']
   \<and> DictReader_row [''x'', ''y''] [''1'', ''2'', ''3'']
     = [(Some ''x'', PStr ''1''), (Some ''y'', PStr ''2''), (None, PList [''3''])]
   \<and> isl (convert_to_xml ''in.tsv'' ''output.xml''
        [''in.tsv'' \<mapsto> latin1 (''x'' @ [TAB] @ ''y'' @ [LF] @ ''1'' @ [TAB] @ ''2'' @ [TAB] @ ''3'' @ [LF])])"
proof -
  let ?content = "latin1 (''x'' @ [TAB] @ ''y'' @ [LF] @ ''1'' @ [TAB] @ ''2'' @ [TAB] @ ''3'' @ [LF])"
  have h1: "[''in.tsv'' \<mapsto> ?content] ''in.tsv'' = Some ?content" by simp
  have h2: "csv_reader (text_lines ?content) = Inr ([''x'', ''y''] # [[''1'', ''2'', ''3'']])"
    by (simp add: input_eval reader_eval)
  have h3: "[''1'', ''2'', ''3''] \<in> set [[''1'', ''2'', ''3'']]" by simp
  have h4: "length [''x'', ''y''] < length [''1'', ''2'', ''3'']" by simp
  from long_row_extras_kept
         [where fs = "[''in.tsv'' \<mapsto> ?content]" and input_file = "''in.tsv''"
            and output_file = "''output.xml''", OF h1 h2 h3 h4]
  show ?thesis
    using h2 by simp
qed

subsection \<open>Keys and the header\<close>

text \<open>
  Claim C3, as stated: the keys of every JSON object (the tags of every item's children)
  are a subset of the header's field names. It fails: for the header \<^verbatim>\<open>a\<close> and the row
  \<^verbatim>\<open>1<TAB>2\<close> the object written has the key \<^verbatim>\<open>null\<close>, which is no header field.
\<close>

theorem keys_subset_header_counterexample:
  "main [''Formater.py'', ''in.tsv'', ''-j'']
        [''in.tsv'' \<mapsto> latin1 (''a'' @ [LF] @ ''1'' @ [TAB] @ ''2'' @ [LF])]
   = Exit 0 [''Conversion complete. Output saved to output.json'']
      [''in.tsv'' \<mapsto> latin1 (''a'' @ [LF] @ ''1'' @ [TAB] @ ''2'' @ [LF]),
       ''output.json'' \<mapsto> encode_utf8
          (''['' @ [LF] @
           ''    {'' @ [LF] @
           ''        '' @ [DQUOTE] @ ''a'' @ [DQUOTE] @ '': '' @ [DQUOTE] @ ''1'' @ [DQUOTE] @ '','' @ [LF] @
           ''        '' @ [DQUOTE] @ ''null'' @ [DQUOTE] @ '': ['' @ [LF] @
           ''            '' @ [DQUOTE] @ ''2'' @ [DQUOTE] @ [LF] @
           ''        ]'' @ [LF] @
           ''    }'' @ [LF] @
           '']'')]"
  by (simp add: main_def finish_def convert_to_json_def input_eval reader_eval dict_eval json_eval)

text \<open>
  Claim C3, amended. Whenever the reader returns a header and data records, the key set of
  the mapping of a record with at most as many fields as the header is exactly the set of
  header names (a short record has its missing keys filled in), and that of a record with
  more fields is the header names together with the key \<^verbatim>\<open>None\<close>, written \<^verbatim>\<open>null\<close> by
  \<^verbatim>\<open>json.dump\<close>; the tags of an item's children are the keys of its row's mapping, in
  order.
\<close>

theorem row_keys_from_header:
  assumes "csv_reader (text_lines content) = Inr (fieldnames # rows)"
  shows "read_dict_rows content
           = Inr (map (DictReader_row fieldnames) (filter (\<lambda>row. row \<noteq> []) rows))
         \<and> (\<forall>row \<in> set rows.
               fst ` set (DictReader_row fieldnames row)
                 = (if length row \<le> length fieldnames then Some ` set fieldnames
                    else insert None (Some ` set fieldnames))
               \<and> json_key ` fst ` set (DictReader_row fieldnames row)
                 = (if length row \<le> length fieldnames then set fieldnames
                    else insert ''null'' (set fieldnames))
               \<and> map etag (echildren (make_item (DictReader_row fieldnames row)))
                 = map fst (DictReader_row fieldnames row))"
proof -
  have j: "json_key ` Some ` set fieldnames = set fieldnames"
    by (simp add: image_image json_key_def)
  have n: "json_key None = ''null''"
    by (simp add: json_key_def)
  show ?thesis
    using assms by (simp add: read_dict_rows_eq keys_DictReader_row make_item_tags j n)
qed

theorem row_keys_from_header_witness:
  "csv_reader (text_lines (latin1 (''a'' @ [TAB] @ ''b'' @ [LF] @ ''1'' @ [TAB] @ ''2'' @ [LF])))
     = Inr [[''a'', ''b''], [''1'', ''2'']]
   \<and> fst ` set (DictReader_row [''a'', ''b''] [''1'', ''2'']) = {Some ''a'', Some ''b''}
   \<and> json_key ` fst ` set (DictReader_row [''a'', ''b''] [''1'', ''2'']) = {''a'', ''b''}"
proof -
  have h: "csv_reader (text_lines (latin1 (''a'' @ [TAB] @ ''b'' @ [LF] @ ''1'' @ [TAB] @ ''2'' @ [LF])))
             = Inr ([''a'', ''b''] # [[''1'', ''2'']])"
    by (simp add: input_eval reader_eval)
  from row_keys_from_header [OF h] show ?thesis
    using h by (simp add: json_key_def)
qed

subsection \<open>Writing the element tree: plain trees\<close>

text \<open>On a tree of plain names whose texts are strings or absent, \<open>tree_write\<close> raises
  nothing and writes the document of the specification.\<close>

lemma write_all_Inr: "write_all (map Inr xs) = Inr (concat xs)"
  by (induction xs) simp_all

lemma replace_char_empty: "new \<noteq> [] \<Longrightarrow> replace_char c new s = [] \<longleftrightarrow> s = []"
  by (cases s) simp_all

lemma escape_cdata_str_empty: "escape_cdata_str s = [] \<longleftrightarrow> s = []"
  by (simp add: escape_cdata_str_def replace_char_empty del: replace_char.simps)

lemma escape_cdata_str_Nil: "escape_cdata_str [] = []"
  by (simp add: escape_cdata_str_def)

lemma write_text_plain:
  "(case x of PList l \<Rightarrow> False | _ \<Rightarrow> True) \<Longrightarrow>
   write_text x = Inr (case x of PStr s \<Rightarrow> escape_cdata_str s | _ \<Rightarrow> [])"
  by (cases x) (simp_all add: write_text_def truthy_def escape_cdata_str_Nil)

lemma truthy_plain:
  "(case x of PList l \<Rightarrow> False | _ \<Rightarrow> True) \<Longrightarrow>
   truthy x \<longleftrightarrow> (case x of PStr s \<Rightarrow> escape_cdata_str s | _ \<Rightarrow> []) \<noteq> []"
  by (cases x) (simp_all add: truthy_def escape_cdata_str_empty)

lemma map_of_identity:
  "\<forall>p \<in> set q. fst p = snd p \<Longrightarrow> n \<in> fst ` set q \<Longrightarrow> map_of q n = Some n"
  by (induction q) auto

lemma add_qname_plain:
  "plain_name n \<Longrightarrow> add_qname n (q, ns) = Inr (q @ [(n, n)], ns)"
  by (simp add: add_qname_def plain_name_def)

lemma namespaces_loop_plain:
  assumes "\<forall>t \<in> set tags. \<exists>n. t = Some n \<and> plain_name n"
      and "\<forall>p \<in> set q. fst p = snd p"
  shows "\<exists>q'. namespaces_loop tags (q, ns) = Inr (q', ns)
              \<and> (\<forall>p \<in> set q'. fst p = snd p)
              \<and> fst ` set q \<subseteq> fst ` set q'
              \<and> (\<forall>n. Some n \<in> set tags \<longrightarrow> n \<in> fst ` set q')"
  using assms
proof (induction tags arbitrary: q)
  case Nil
  then show ?case by simp
next
  case (Cons t tags)
  then obtain n where t: "t = Some n" and pn: "plain_name n" by auto
  have rest: "\<forall>t \<in> set tags. \<exists>n. t = Some n \<and> plain_name n" using Cons.prems(1) by simp
  show ?case
  proof (cases "n \<in> fst ` set q")
    case True
    from Cons.IH [OF rest Cons.prems(2)] obtain q' where
      q': "namespaces_loop tags (q, ns) = Inr (q', ns)" "\<forall>p \<in> set q'. fst p = snd p"
          "fst ` set q \<subseteq> fst ` set q'" "\<forall>n. Some n \<in> set tags \<longrightarrow> n \<in> fst ` set q'"
      by blast
    show ?thesis
      using q' True t by (intro exI [of _ q']) auto
  next
    case False
    have inv: "\<forall>p \<in> set (q @ [(n, n)]). fst p = snd p" using Cons.prems(2) by auto
    from Cons.IH [OF rest inv] obtain q' where
      q': "namespaces_loop tags (q @ [(n, n)], ns) = Inr (q', ns)" "\<forall>p \<in> set q'. fst p = snd p"
          "fst ` set (q @ [(n, n)]) \<subseteq> fst ` set q'" "\<forall>n. Some n \<in> set tags \<longrightarrow> n \<in> fst ` set q'"
      by blast
    show ?thesis
      using q' False t pn by (intro exI [of _ q']) (auto simp: add_qname_plain)
  qed
qed

lemma plain_tree_tags:
  "plain_tree e \<Longrightarrow> \<forall>t \<in> set (iter_tags e). \<exists>n. t = Some n \<and> plain_name n"
proof (induction e)
  case (Element t x cs)
  then show ?case by (auto simp: list_all_iff split: option.splits)
qed

lemma serialize_xml_plain:
  "plain_tree e \<Longrightarrow> \<forall>n. Some n \<in> set (iter_tags e) \<longrightarrow> map_of q n = Some n \<Longrightarrow>
   serialize_xml q [] e = Inr (document_text e)"
proof (induction e)
  case (Element t x cs)
  from Element.prems(1) obtain name where t: "t = Some name"
    by (cases t) auto
  have x: "(case x of PList l \<Rightarrow> False | _ \<Rightarrow> True)" using Element.prems(1) by simp
  have q: "map_of q name = Some name" using Element.prems(2) t by simp
  have kids: "map (serialize_xml q []) cs = map Inr (map document_text cs)"
  proof -
    have "serialize_xml q [] c = Inr (document_text c)" if "c \<in> set cs" for c
    proof (rule Element.IH [OF that])
      show "plain_tree c" using Element.prems(1) that by (simp add: list_all_iff)
      show "\<forall>n. Some n \<in> set (iter_tags c) \<longrightarrow> map_of q n = Some n"
        using Element.prems(2) that by auto
    qed
    then show ?thesis by simp
  qed
  let ?tx = "case x of PStr s \<Rightarrow> escape_cdata_str s | _ \<Rightarrow> []"
  have all: "write_all ([Inr (''<'' @ name @ xmlns_attributes [] @ ''>''), write_text x]
                        @ map (serialize_xml q []) cs @ [Inr (''</'' @ name @ ''>'')])
             = Inr (concat ([''<'' @ name @ ''>'', ?tx] @ map document_text cs @ [''</'' @ name @ ''>'']))"
  proof -
    have "[Inr (''<'' @ name @ xmlns_attributes [] @ ''>''), write_text x]
            @ map (serialize_xml q []) cs @ [Inr (''</'' @ name @ ''>'')]
          = map Inr ([''<'' @ name @ ''>'', ?tx] @ map document_text cs @ [''</'' @ name @ ''>''])"
      by (simp add: kids write_text_plain [OF x] xmlns_attributes_def)
    then show ?thesis by (simp only: write_all_Inr)
  qed
  have cond: "(truthy x \<or> cs \<noteq> []) \<longleftrightarrow> \<not> (?tx @ concat (map document_text cs) = [] \<and> cs = [])"
    using truthy_plain [OF x] by auto
  show ?case
    unfolding serialize_xml.simps document_text.simps t option.case q Let_def
    using all cond by (simp add: xmlns_attributes_def del: write_all.simps)
qed

lemma tree_write_plain:
  assumes "plain_tree e"
  shows "tree_write e = Inr (document_text e)"
proof -
  have inv: "\<forall>p \<in> set ([] :: (string \<times> string) list). fst p = snd p" by simp
  from namespaces_loop_plain [OF plain_tree_tags [OF assms] inv, of "[]"]
  obtain q' where ql: "namespaces_loop (iter_tags e) ([], []) = Inr (q', [])"
      and qi: "\<forall>p \<in> set q'. fst p = snd p"
      and qm: "\<forall>n. Some n \<in> set (iter_tags e) \<longrightarrow> n \<in> fst ` set q'"
    by blast
  have m: "\<forall>n. Some n \<in> set (iter_tags e) \<longrightarrow> map_of q' n = Some n"
  proof (intro allI impI)
    fix n assume "Some n \<in> set (iter_tags e)"
    with qm have "n \<in> fst ` set q'" by blast
    with qi show "map_of q' n = Some n" by (rule map_of_identity)
  qed
  have "serialize_xml q' [] e = Inr (document_text e)"
    using assms m by (rule serialize_xml_plain)
  then show ?thesis
    unfolding tree_write_def namespaces_of_def ql by simp
qed

lemma setitem_entries:
  "\<forall>p \<in> set d. P p \<Longrightarrow> P (k, v) \<Longrightarrow> \<forall>p \<in> set (dict_setitem k v d). P p"
proof (induction d)
  case (Cons p d)
  obtain a b where p: "p = (a, b)" by (cases p)
  show ?case
  proof (cases "a = k")
    case True
    with Cons p show ?thesis by auto
  next
    case False
    with Cons p show ?thesis by auto
  qed
qed simp

lemma dict_zip_entries:
  "\<forall>p \<in> set d. P p \<Longrightarrow> \<forall>k \<in> set ks. \<forall>v. P (Some k, PStr v) \<Longrightarrow>
   \<forall>p \<in> set (dict_zip d ks vs). P p"
proof (induction d ks vs rule: dict_zip.induct)
  case (1 d k ks v vs)
  have "\<forall>p \<in> set (dict_setitem (Some k) (PStr v) d). P p"
    using 1(2,3) by (intro setitem_entries) auto
  then show ?case using 1 by simp
qed auto

lemma fill_restval_entries:
  "\<forall>p \<in> set d. P p \<Longrightarrow> \<forall>k \<in> set ks. P (Some k, PNone) \<Longrightarrow>
   \<forall>p \<in> set (fill_restval d ks). P p"
proof (induction d ks rule: fill_restval.induct)
  case (2 d key keys)
  have "\<forall>p \<in> set (dict_setitem (Some key) PNone d). P p"
    using 2(2,3) by (intro setitem_entries) auto
  then show ?case using 2 by simp
qed auto

lemma DictReader_row_entries:
  assumes "length row \<le> length fieldnames"
      and "\<forall>k \<in> set fieldnames. \<forall>v. P (Some k, PStr v)"
      and "\<forall>k \<in> set fieldnames. P (Some k, PNone)"
  shows "\<forall>p \<in> set (DictReader_row fieldnames row). P p"
proof -
  have z: "\<forall>p \<in> set (dict_zip [] fieldnames row). P p"
    using assms(2) by (intro dict_zip_entries) auto
  have "\<forall>p \<in> set (fill_restval (dict_zip [] fieldnames row) (drop (length row) fieldnames)). P p"
    using z assms(3) by (intro fill_restval_entries) (auto dest: in_set_dropD)
  with z assms(1) show ?thesis
    by (auto simp: DictReader_row_def Let_def)
qed

lemma plain_item:
  assumes "length row \<le> length fieldnames" and "\<forall>n \<in> set fieldnames. plain_name n"
  shows "plain_tree (make_item (DictReader_row fieldnames row))"
proof -
  have "\<forall>p \<in> set (DictReader_row fieldnames row). plain_tree (Element (fst p) (snd p) [])"
    using assms by (intro DictReader_row_entries) auto
  then show ?thesis
    by (auto simp: make_item_def plain_name_def list_all_iff)
qed

lemma plain_root:
  assumes "\<forall>row \<in> set rows. length row \<le> length fieldnames"
      and "\<forall>n \<in> set fieldnames. plain_name n"
  shows "plain_tree (make_root (map (DictReader_row fieldnames) rows))"
  using assms by (auto simp: make_root_def plain_name_def list_all_iff intro: plain_item)

lemma equal_row_dict:
  assumes "distinct fieldnames" and "length row = length fieldnames"
  shows "DictReader_row fieldnames row = map (\<lambda>(k, v). (Some k, PStr v)) (zip fieldnames row)"
  using dict_zip_distinct [OF assms(1), of "[]" row] assms(2)
  by (simp add: DictReader_row_def Let_def)

subsection \<open>The XML document\<close>

text \<open>Scenario 3 of the specification.\<close>

lemma scenario_3:
  "main [''Formater.py'', ''in.tsv'', ''-x'']
        [''in.tsv'' \<mapsto> latin1 (''name'' @ [TAB] @ ''age'' @ [LF] @ ''Alice'' @ [TAB] @ ''30'' @ [LF]
                                  @ ''Bob'' @ [TAB] @ ''25'' @ [LF])]
   = Exit 0 [''Conversion complete. Output saved to output.xml'']
      [''in.tsv'' \<mapsto> latin1 (''name'' @ [TAB] @ ''age'' @ [LF] @ ''Alice'' @ [TAB] @ ''30'' @ [LF]
                                  @ ''Bob'' @ [TAB] @ ''25'' @ [LF]),
       ''output.xml'' \<mapsto> encode_utf8
          ''<root><item><name>Alice</name><age>30</age></item><item><name>Bob</name><age>25</age></item></root>'']"
  by (simp add: main_def finish_def convert_to_xml_def input_eval reader_eval dict_eval xml_eval)

text \<open>
  Claim C7, as stated: under \<^verbatim>\<open>-x\<close> every item holds one child element per field of its
  row, named after the header's field name for that column, with the field's value as
  text. It fails: for the header \<^verbatim>\<open>a<TAB>a\<close> and the row \<^verbatim>\<open>1<TAB>2\<close> the item written has
  one child for two fields, and the value \<^verbatim>\<open>1\<close> is not in the document.
\<close>

theorem xml_child_per_field_counterexample:
  "main [''Formater.py'', ''in.tsv'', ''-x'']
        [''in.tsv'' \<mapsto> latin1 (''a'' @ [TAB] @ ''a'' @ [LF] @ ''1'' @ [TAB] @ ''2'' @ [LF])]
   = Exit 0 [''Conversion complete. Output saved to output.xml'']
      [''in.tsv'' \<mapsto> latin1 (''a'' @ [TAB] @ ''a'' @ [LF] @ ''1'' @ [TAB] @ ''2'' @ [LF]),
       ''output.xml'' \<mapsto> encode_utf8 ''<root><item><a>2</a></item></root>'']"
  by (simp add: main_def finish_def convert_to_xml_def input_eval reader_eval dict_eval xml_eval)

text \<open>
  Claim C7, amended. Whenever the reader returns a header and data records, the tree built
  under \<^verbatim>\<open>-x\<close> is one element \<^verbatim>\<open>root\<close> whose children are one element \<^verbatim>\<open>item\<close> per
  non-empty data record, in order, the header giving no item; the children of an item are
  the entries of its row's mapping, the key as tag and the value as text. For a header of
  distinct names and a record with exactly as many fields as the header, these are one
  child per field, named after the header's field name for that column, with the field as
  text. When no header name starts with \<^verbatim>\<open>{\<close> and no record has more fields than the
  header, the converter writes the document of that tree to the output file.
\<close>

theorem xml_document_structure:
  assumes "fs input_file = Some content"
      and "csv_reader (text_lines content) = Inr (fieldnames # rows)"
  shows "read_dict_rows content
           = Inr (map (DictReader_row fieldnames) (filter (\<lambda>row. row \<noteq> []) rows))
         \<and> make_root (map (DictReader_row fieldnames) (filter (\<lambda>row. row \<noteq> []) rows))
           = Element (Some ''root'') PNone
               (map (\<lambda>row. Element (Some ''item'') PNone
                            (map (\<lambda>(key, v). Element key v []) (DictReader_row fieldnames row)))
                    (filter (\<lambda>row. row \<noteq> []) rows))
         \<and> (distinct fieldnames \<longrightarrow>
              (\<forall>row \<in> set rows. length row = length fieldnames \<longrightarrow>
                 DictReader_row fieldnames row
                   = map (\<lambda>(k, v). (Some k, PStr v)) (zip fieldnames row)))
         \<and> ((\<forall>n \<in> set fieldnames. plain_name n)
              \<and> (\<forall>row \<in> set rows. length row \<le> length fieldnames) \<longrightarrow>
              convert_to_xml input_file output_file fs
                = Inr (fs(output_file \<mapsto> encode_utf8 (document_text
                    (make_root (map (DictReader_row fieldnames)
                                    (filter (\<lambda>row. row \<noteq> []) rows)))))))"
proof -
  let ?data = "map (DictReader_row fieldnames) (filter (\<lambda>row. row \<noteq> []) rows)"
  have data: "read_dict_rows content = Inr ?data"
    using assms(2) by (rule read_dict_rows_eq)
  have tree: "make_root ?data
           = Element (Some ''root'') PNone
               (map (\<lambda>row. Element (Some ''item'') PNone
                            (map (\<lambda>(key, v). Element key v []) (DictReader_row fieldnames row)))
                    (filter (\<lambda>row. row \<noteq> []) rows))"
    by (simp add: make_root_def make_item_def comp_def)
  have eq: "distinct fieldnames \<longrightarrow>
              (\<forall>row \<in> set rows. length row = length fieldnames \<longrightarrow>
                 DictReader_row fieldnames row
                   = map (\<lambda>(k, v). (Some k, PStr v)) (zip fieldnames row))"
    using equal_row_dict by blast
  have written: "convert_to_xml input_file output_file fs
                = Inr (fs(output_file \<mapsto> encode_utf8 (document_text (make_root ?data))))"
    if names: "\<forall>n \<in> set fieldnames. plain_name n"
      and lens: "\<forall>row \<in> set rows. length row \<le> length fieldnames"
  proof -
    have "\<forall>row \<in> set (filter (\<lambda>row. row \<noteq> []) rows). length row \<le> length fieldnames"
      using lens by simp
    then have "plain_tree (make_root ?data)"
      using names by (rule plain_root)
    then have "tree_write (make_root ?data) = Inr (document_text (make_root ?data))"
      by (rule tree_write_plain)
    then show ?thesis
      by (simp add: convert_to_xml_def assms(1) data)
  qed
  show ?thesis
    using data tree eq written by blast
qed

theorem xml_document_structure_witness:
  "[''in.tsv'' \<mapsto> latin1 (''name'' @ [TAB] @ ''age'' @ [LF] @ ''Alice'' @ [TAB] @ ''30'' @ [LF])] ''in.tsv''
     = Some (latin1 (''name'' @ [TAB] @ ''age'' @ [LF] @ ''Alice'' @ [TAB] @ ''30'' @ [LF]))
   \<and> csv_reader (text_lines (latin1 (''name'' @ [TAB] @ ''age'' @ [LF] @ ''Alice'' @ [TAB] @ ''30'' @ [LF])))
     = Inr [[''name'', ''age''], [''Alice'', ''30'']]
   \<and> distinct [''name'', ''age'']
   \<and> plain_name ''name'' \<and> plain_name ''age''
   \<and> length [''Alice'', ''30''] = length [''name'', ''age'']
   \<and> DictReader_row [''name'', ''age''] [''Alice'', ''30'']
     = [(Some ''name'', PStr ''Alice''), (Some ''age'', PStr ''30'')]
   \<and> convert_to_xml ''in.tsv'' ''output.xml''
        [''in.tsv'' \<mapsto> latin1 (''name'' @ [TAB] @ ''age'' @ [LF] @ ''Alice'' @ [TAB] @ ''30'' @ [LF])]
     = Inr [''in.tsv'' \<mapsto> latin1 (''name'' @ [TAB] @ ''age'' @ [LF] @ ''Alice'' @ [TAB] @ ''30'' @ [LF]),
            ''output.xml'' \<mapsto> encode_utf8 ''<root><item><name>Alice</name><age>30</age></item></root>'']"
proof -
  let ?content = "latin1 (''name'' @ [TAB] @ ''age'' @ [LF] @ ''Alice'' @ [TAB] @ ''30'' @ [LF])"
  have h1: "[''in.tsv'' \<mapsto> ?content] ''in.tsv'' = Some ?content" by simp
  have h2: "csv_reader (text_lines ?content) = Inr ([''name'', ''age''] # [[''Alice'', ''30'']])"
    by (simp add: input_eval reader_eval)
  have doc: "document_text (make_root [[(Some ''name'', PStr ''Alice''), (Some ''age'', PStr ''30'')]])
               = ''<root><item><name>Alice</name><age>30</age></item></root>''"
    by (simp add: make_root_def make_item_def escape_cdata_str_def)
  from xml_document_structure
         [where fs = "[''in.tsv'' \<mapsto> ?content]" and input_file = "''in.tsv''"
            and output_file = "''output.xml''", OF h1 h2]
  show ?thesis
    using h2 doc by (simp add: plain_name_def)
qed

subsection \<open>Lines of the input\<close>

lemma decode_latin1_length: "length (decode_latin1 bs) = length bs"
  by (simp add: decode_latin1_def)

lemma translate_newlines_no_CR: "CR \<notin> set (translate_newlines s)"
  by (induction s rule: translate_newlines.induct) auto

lemma translate_newlines_length: "length (translate_newlines s) \<le> length s"
  by (induction s rule: translate_newlines.induct) auto

lemma concat_file_lines: "concat (file_lines s) = s"
  by (induction s) (auto split: list.splits)

lemma file_lines_ok:
  "l \<in> set (file_lines s) \<Longrightarrow> l \<noteq> [] \<and> LF \<notin> set (butlast l) \<and> set l \<subseteq> set s"
proof (induction s arbitrary: l)
  case Nil
  then show ?case by simp
next
  case (Cons c cs)
  show ?case
  proof (cases "c = LF")
    case True
    with Cons show ?thesis by auto
  next
    case False
    show ?thesis
    proof (cases "file_lines cs")
      case Nil
      with Cons.prems False show ?thesis by auto
    next
      case (Cons l' ls)
      have l': "l' \<noteq> [] \<and> LF \<notin> set (butlast l') \<and> set l' \<subseteq> set cs"
        using Cons.IH [of l'] Cons by simp
      have rest: "\<And>k. k \<in> set ls \<Longrightarrow> k \<noteq> [] \<and> LF \<notin> set (butlast k) \<and> set k \<subseteq> set cs"
        using Cons.IH Cons by simp
      from Cons.prems False Cons have "l = c # l' \<or> l \<in> set ls" by auto
      then show ?thesis
      proof
        assume "l = c # l'"
        with l' False show ?thesis by auto
      next
        assume "l \<in> set ls"
        from rest [OF this] show ?thesis by auto
      qed
    qed
  qed
qed

lemma text_lines_ok: "l \<in> set (text_lines content) \<Longrightarrow> line_ok l"
  unfolding text_lines_def line_ok_def
  using file_lines_ok translate_newlines_no_CR by blast

lemma text_lines_length: "sum_list (map length (text_lines content)) \<le> length content"
proof -
  have "sum_list (map length (text_lines content))
          = length (translate_newlines (decode_latin1 content))"
    unfolding text_lines_def
    by (metis concat_file_lines length_concat)
  also have "\<dots> \<le> length content"
    using translate_newlines_length [of "decode_latin1 content"] by (simp add: decode_latin1_length)
  finally show ?thesis .
qed

subsection \<open>The reader never fails but for the field limit\<close>

lemma step_EOL:
  "\<exists>r'. parse_process_char r None = Inr r'
        \<and> (state r' = START_RECORD \<or> state r' = IN_QUOTED_FIELD)
        \<and> length (rfield r') \<le> length (rfield r)"
  by (cases "state r") (simp_all add: parse_save_field_def)

lemma step_char:
  assumes "c \<noteq> LF" and "c \<noteq> CR" and "state r \<noteq> EAT_CRNL"
  shows "(parse_process_char r (Some c) = Inl CsvFieldLimit \<and> field_limit \<le> length (rfield r))
       \<or> (\<exists>r'. parse_process_char r (Some c) = Inr r' \<and> state r' \<noteq> EAT_CRNL
                \<and> length (rfield r') \<le> Suc (length (rfield r)))"
  using assms
  by (cases "state r") (auto simp: parse_save_field_def parse_add_char_def then_state_def)

lemma step_LF:
  assumes "state r \<noteq> EAT_CRNL"
  shows "(parse_process_char r (Some LF) = Inl CsvFieldLimit \<and> field_limit \<le> length (rfield r))
       \<or> (\<exists>r'. parse_process_char r (Some LF) = Inr r'
                \<and> length (rfield r') \<le> Suc (length (rfield r)))"
  using assms
  by (cases "state r") (auto simp: parse_save_field_def parse_add_char_def then_state_def quotechar_def)

lemma process_chars_append:
  "process_chars r (xs @ ys)
     = (case process_chars r xs of Inl e \<Rightarrow> Inl e | Inr r' \<Rightarrow> process_chars r' ys)"
  by (induction xs arbitrary: r) (auto simp del: parse_process_char.simps split: sum.splits)

lemma process_chars_cases:
  assumes "LF \<notin> set cs" and "CR \<notin> set cs" and "state r \<noteq> EAT_CRNL"
  shows "(process_chars r cs = Inl CsvFieldLimit \<and> field_limit < length (rfield r) + length cs)
       \<or> (\<exists>r'. process_chars r cs = Inr r' \<and> state r' \<noteq> EAT_CRNL
                \<and> length (rfield r') \<le> length (rfield r) + length cs)"
  using assms
proof (induction cs arbitrary: r)
  case Nil
  then show ?case by simp
next
  case (Cons c cs)
  have c: "c \<noteq> LF" "c \<noteq> CR" using Cons.prems by auto
  from step_char [OF c Cons.prems(3)] show ?case
  proof
    assume "parse_process_char r (Some c) = Inl CsvFieldLimit \<and> field_limit \<le> length (rfield r)"
    then show ?thesis by (simp del: parse_process_char.simps)
  next
    assume "\<exists>r'. parse_process_char r (Some c) = Inr r' \<and> state r' \<noteq> EAT_CRNL
                \<and> length (rfield r') \<le> Suc (length (rfield r))"
    then obtain r1 where r1: "parse_process_char r (Some c) = Inr r1" "state r1 \<noteq> EAT_CRNL"
        "length (rfield r1) \<le> Suc (length (rfield r))" by blast
    have "LF \<notin> set cs" "CR \<notin> set cs" using Cons.prems by auto
    from Cons.IH [OF this r1(2)] r1 show ?thesis
      by (auto simp del: parse_process_char.simps)
  qed
qed

lemma process_line_cases:
  assumes "line_ok l" and "state r \<noteq> EAT_CRNL"
  shows "(process_line r l = Inl CsvFieldLimit \<and> field_limit < length (rfield r) + length l)
       \<or> (\<exists>r'. process_line r l = Inr r'
                \<and> (state r' = START_RECORD \<or> state r' = IN_QUOTED_FIELD)
                \<and> length (rfield r') \<le> length (rfield r) + length l)"
proof -
  from assms(1) have ne: "l \<noteq> []" and nocr: "CR \<notin> set l" and nolf: "LF \<notin> set (butlast l)"
    by (auto simp: line_ok_def)
  have l: "l = butlast l @ [last l]" using ne by simp
  have nocr': "CR \<notin> set (butlast l)" using nocr by (meson in_set_butlastD)
  have len: "length l = Suc (length (butlast l))" using ne by simp
  from process_chars_cases [OF nolf nocr' assms(2)] show ?thesis
  proof
    assume a: "process_chars r (butlast l) = Inl CsvFieldLimit
               \<and> field_limit < length (rfield r) + length (butlast l)"
    have "process_chars r (butlast l @ [last l]) = Inl CsvFieldLimit"
      using a by (simp only: process_chars_append sum.case)
    then have "process_chars r l = Inl CsvFieldLimit"
      using l by simp
    then have "process_line r l = Inl CsvFieldLimit"
      by (simp only: process_line_def sum.case)
    moreover have "field_limit < length (rfield r) + length l"
      using a len by linarith
    ultimately show ?thesis by blast
  next
    assume "\<exists>r'. process_chars r (butlast l) = Inr r' \<and> state r' \<noteq> EAT_CRNL
                \<and> length (rfield r') \<le> length (rfield r) + length (butlast l)"
    then obtain r1 where r1: "process_chars r (butlast l) = Inr r1" "state r1 \<noteq> EAT_CRNL"
        "length (rfield r1) \<le> length (rfield r) + length (butlast l)" by blast
    have "process_chars r (butlast l @ [last l])
                 = (case parse_process_char r1 (Some (last l)) of Inl e \<Rightarrow> Inl e | Inr r2 \<Rightarrow> Inr r2)"
      using r1(1) by (simp only: process_chars_append sum.case process_chars.simps)
    then have all: "process_chars r l
                 = (case parse_process_char r1 (Some (last l)) of Inl e \<Rightarrow> Inl e | Inr r2 \<Rightarrow> Inr r2)"
      using l by simp
    have step: "(parse_process_char r1 (Some (last l)) = Inl CsvFieldLimit
                  \<and> field_limit \<le> length (rfield r1))
              \<or> (\<exists>r'. parse_process_char r1 (Some (last l)) = Inr r'
                    \<and> length (rfield r') \<le> Suc (length (rfield r1)))"
    proof (cases "last l = LF")
      case True
      with step_LF [OF r1(2)] show ?thesis by simp
    next
      case False
      have "last l \<noteq> CR" using nocr ne last_in_set by metis
      from step_char [OF False this r1(2)] show ?thesis by blast
    qed
    then show ?thesis
    proof
      assume a: "parse_process_char r1 (Some (last l)) = Inl CsvFieldLimit
                  \<and> field_limit \<le> length (rfield r1)"
      then have "process_line r l = Inl CsvFieldLimit"
        using all by (simp only: process_line_def sum.case)
      moreover have "field_limit < length (rfield r) + length l"
        using a r1(3) len by linarith
      ultimately show ?thesis by blast
    next
      assume "\<exists>r'. parse_process_char r1 (Some (last l)) = Inr r'
                    \<and> length (rfield r') \<le> Suc (length (rfield r1))"
      then obtain r2 where r2: "parse_process_char r1 (Some (last l)) = Inr r2"
          "length (rfield r2) \<le> Suc (length (rfield r1))" by blast
      from step_EOL [of r2] obtain r3 where r3: "parse_process_char r2 None = Inr r3"
          "state r3 = START_RECORD \<or> state r3 = IN_QUOTED_FIELD"
          "length (rfield r3) \<le> length (rfield r2)" by blast
      have "process_line r l = Inr r3"
        using all r2(1) r3(1) by (simp only: process_line_def sum.case)
      moreover have "length (rfield r3) \<le> length (rfield r) + length l"
        using r3(3) r2(2) r1(3) len by linarith
      ultimately show ?thesis using r3(2) by blast
    qed
  qed
qed

lemma read_records_cases:
  assumes "\<forall>l \<in> set ls. line_ok l" and "state r \<noteq> EAT_CRNL"
  shows "(read_records r ls = Inl CsvFieldLimit
            \<and> field_limit < length (rfield r) + sum_list (map length ls))
       \<or> (\<exists>rows. read_records r ls = Inr rows)"
  using assms
proof (induction ls arbitrary: r)
  case Nil
  then show ?case by simp
next
  case (Cons l ls)
  have ok: "line_ok l" and rest: "\<forall>l \<in> set ls. line_ok l" using Cons.prems(1) by auto
  from process_line_cases [OF ok Cons.prems(2)] show ?case
  proof
    assume "process_line r l = Inl CsvFieldLimit \<and> field_limit < length (rfield r) + length l"
    then show ?thesis by simp
  next
    assume "\<exists>r'. process_line r l = Inr r'
                \<and> (state r' = START_RECORD \<or> state r' = IN_QUOTED_FIELD)
                \<and> length (rfield r') \<le> length (rfield r) + length l"
    then obtain r1 where r1: "process_line r l = Inr r1"
        "state r1 = START_RECORD \<or> state r1 = IN_QUOTED_FIELD"
        "length (rfield r1) \<le> length (rfield r) + length l" by blast
    show ?thesis
    proof (cases "state r1 = START_RECORD")
      case True
      have "state parse_reset \<noteq> EAT_CRNL" by (simp add: parse_reset_def)
      from Cons.IH [OF rest this] r1(1) True show ?thesis
        by (auto simp: parse_reset_def)
    next
      case False
      then have "state r1 \<noteq> EAT_CRNL" using r1(2) by auto
      from Cons.IH [OF rest this] r1 False show ?thesis
        by auto
    qed
  qed
qed

lemma csv_reader_cases:
  "(csv_reader (text_lines content) = Inl CsvFieldLimit \<and> field_limit < length content)
   \<or> (\<exists>records. csv_reader (text_lines content) = Inr records)"
proof -
  have ok: "\<forall>l \<in> set (text_lines content). line_ok l"
    using text_lines_ok by blast
  have st: "state parse_reset \<noteq> EAT_CRNL" by (simp add: parse_reset_def)
  from read_records_cases [OF ok st] text_lines_length [of content] show ?thesis
    by (auto simp: csv_reader_def parse_reset_def)
qed

lemma translate_newlines_id: "CR \<notin> set s \<Longrightarrow> translate_newlines s = s"
  by (induction s rule: translate_newlines.induct) auto

lemma file_lines_single: "s \<noteq> [] \<Longrightarrow> LF \<notin> set s \<Longrightarrow> file_lines s = [s]"
proof (induction s)
  case (Cons c cs)
  then show ?case by (cases cs) auto
qed simp

lemma of_char_decode_latin1: "map of_char (decode_latin1 content) = content"
proof -
  have "(of_char (char_of (unat b)) :: byte) = b" for b :: byte
  proof -
    have "unat b < 256" using unsigned_less [of b, where ?'a = nat] by simp
    then have n: "(of_char (char_of (unat b)) :: nat) = unat b" by simp
    have "(of_char (char_of (unat b)) :: byte) = of_nat (of_char (char_of (unat b)))"
      by (simp only: of_nat_of_char)
    also have "\<dots> = of_nat (unat b)" by (simp only: n)
    also have "\<dots> = b" by simp
    finally show ?thesis .
  qed
  then show ?thesis
    by (simp add: decode_latin1_def comp_def map_idI)
qed

lemma field_chars_added:
  assumes "state r = IN_FIELD"
      and "\<forall>c \<in> set cs. c \<noteq> LF \<and> c \<noteq> CR \<and> c \<noteq> TAB"
      and "length (rfield r) + length cs \<le> field_limit"
  shows "process_chars r cs = Inr (r\<lparr>rfield := rfield r @ cs\<rparr>)"
  using assms
proof (induction cs arbitrary: r)
  case Nil
  then show ?case by simp
next
  case (Cons c cs)
  have step: "parse_process_char r (Some c) = Inr (r\<lparr>rfield := rfield r @ [c]\<rparr>)"
    using Cons.prems by (simp add: parse_add_char_def delimiter_def)
  have "process_chars (r\<lparr>rfield := rfield r @ [c]\<rparr>) cs
          = Inr (r\<lparr>rfield := rfield r @ [c], rfield := rfield (r\<lparr>rfield := rfield r @ [c]\<rparr>) @ cs\<rparr>)"
    using Cons.prems by (intro Cons.IH) auto
  then show ?case
    using step by (simp del: parse_process_char.simps)
qed

lemma field_limit_exceeded:
  "csv_reader (text_lines (latin1 (replicate (Suc field_limit) (CHR ''a'')))) = Inl CsvFieldLimit"
proof -
  let ?a = "CHR ''a''"
  obtain m where m: "field_limit = Suc m" by (cases field_limit) (simp_all add: field_limit_def)
  have lines: "text_lines (latin1 (replicate (Suc field_limit) ?a)) = [replicate (Suc field_limit) ?a]"
    by (simp add: text_lines_def decode_latin1_latin1 translate_newlines_id file_lines_single
             del: replicate.simps)
  have shape: "replicate (Suc field_limit) ?a = ?a # replicate m ?a @ [?a]"
    by (simp add: m replicate_append_same)
  let ?r1 = "\<lparr>state = IN_FIELD, rfields = [], rfield = [?a]\<rparr>"
  have first: "parse_process_char parse_reset (Some ?a) = Inr ?r1"
    by (simp add: parse_reset_def parse_add_char_def then_state_def quotechar_def delimiter_def
          field_limit_def)
  have mid: "process_chars ?r1 (replicate m ?a) = Inr (?r1\<lparr>rfield := [?a] @ replicate m ?a\<rparr>)"
    using field_chars_added [of ?r1 "replicate m ?a"] m by simp
  have last: "parse_process_char (?r1\<lparr>rfield := [?a] @ replicate m ?a\<rparr>) (Some ?a) = Inl CsvFieldLimit"
    by (simp add: parse_add_char_def delimiter_def m)
  have "process_chars parse_reset (?a # replicate m ?a @ [?a]) = Inl CsvFieldLimit"
    using first mid last
    by (simp add: process_chars_append del: parse_process_char.simps replicate.simps)
  then have "process_line parse_reset (replicate (Suc field_limit) ?a) = Inl CsvFieldLimit"
    unfolding shape by (simp only: process_line_def sum.case)
  then show ?thesis
    unfolding lines csv_reader_def by (simp only: read_records.simps sum.case)
qed

subsection \<open>Decoding and the write stage\<close>

text \<open>
  Claim C6, as stated: for every input file the program reaches the write stage. It
  fails: on a file of 131073 bytes \<^verbatim>\<open>a\<close> the reader raises "field larger than field limit
  (131072)" while the rows are collected, before \<open>convert_to_json\<close> opens its output.
\<close>

theorem write_stage_not_reached_counterexample:
  "read_dict_rows (latin1 (replicate 131073 (CHR ''a''))) = Inl CsvFieldLimit
   \<and> main [''Formater.py'', ''in.tsv'', ''-j'']
          [''in.tsv'' \<mapsto> latin1 (replicate 131073 (CHR ''a''))]
       = Uncaught CsvFieldLimit"
proof -
  have n: "(131073 :: nat) = Suc field_limit" by (simp add: field_limit_def)
  have "csv_reader (text_lines (latin1 (replicate 131073 (CHR ''a'')))) = Inl CsvFieldLimit"
    unfolding n by (rule field_limit_exceeded)
  then show ?thesis
    by (simp add: read_dict_rows_def main_def finish_def convert_to_json_def)
qed

text \<open>
  Claim C6, amended. Decoding never raises: every byte is mapped to the character with
  the same code point, so the bytes are recovered from the decoded text and no placeholder
  is ever substituted. The only exception that can end the reading of the rows is the
  reader's "field larger than field limit" error, and it needs an input longer than
  131072 bytes; on every input of at most 131072 bytes the rows are read in full, so each
  converter reaches its write stage, and the CSV and JSON converters complete.
\<close>

theorem decoding_never_fails:
  "map of_char (decode_latin1 content) = content
   \<and> (\<forall>e. csv_reader (text_lines content) = Inl e \<longrightarrow>
          e = CsvFieldLimit \<and> field_limit < length content)
   \<and> (length content \<le> field_limit \<longrightarrow>
        (\<exists>records. csv_reader (text_lines content) = Inr records)
        \<and> (\<exists>rows. read_dict_rows content = Inr rows)
        \<and> (\<forall>fs input_file output_file. fs input_file = Some content \<longrightarrow>
              (\<exists>data. convert_to_json input_file output_file fs
                        = Inr (fs(output_file \<mapsto> encode_utf8 (json_dump data)))))
        \<and> (\<forall>fs input_file output_file.
              fs input_file = Some content \<and> input_file \<noteq> output_file \<longrightarrow>
              (\<exists>records. convert_to_csv input_file output_file fs
                        = Inr (fs(output_file \<mapsto> encode_utf8 (concat (map writerow records)))))))"
proof -
  have only: "\<forall>e. csv_reader (text_lines content) = Inl e \<longrightarrow>
                 e = CsvFieldLimit \<and> field_limit < length content"
    using csv_reader_cases [of content] by auto
  have small: "\<exists>records. csv_reader (text_lines content) = Inr records"
    if "length content \<le> field_limit"
    using csv_reader_cases [of content] that by auto
  have rest: "(\<exists>rows. read_dict_rows content = Inr rows)
        \<and> (\<forall>fs input_file output_file. fs input_file = Some content \<longrightarrow>
              (\<exists>data. convert_to_json input_file output_file fs
                        = Inr (fs(output_file \<mapsto> encode_utf8 (json_dump data)))))
        \<and> (\<forall>fs input_file output_file.
              fs input_file = Some content \<and> input_file \<noteq> output_file \<longrightarrow>
              (\<exists>records. convert_to_csv input_file output_file fs
                        = Inr (fs(output_file \<mapsto> encode_utf8 (concat (map writerow records))))))"
    if "length content \<le> field_limit"
  proof -
    from small [OF that] obtain records where r: "csv_reader (text_lines content) = Inr records"
      by blast
    show ?thesis
      using r by (auto simp: read_dict_rows_def convert_to_json_def convert_to_csv_def)
  qed
  show ?thesis
    using of_char_decode_latin1 only small rest by blast
qed

theorem decoding_never_fails_witness:
  "length [0x00, 0xFF, 0x09, 0x22, 0x0A :: byte] \<le> field_limit
   \<and> map of_char (decode_latin1 [0x00, 0xFF, 0x09, 0x22, 0x0A]) = [0x00, 0xFF, 0x09, 0x22, 0x0A :: byte]
   \<and> \<not> isl (read_dict_rows [0x00, 0xFF, 0x09, 0x22, 0x0A])"
proof -
  have h: "length [0x00, 0xFF, 0x09, 0x22, 0x0A :: byte] \<le> field_limit"
    by (simp add: field_limit_def)
  from decoding_never_fails [of "[0x00, 0xFF, 0x09, 0x22, 0x0A]"] h show ?thesis
    by auto
qed

subsection \<open>Determinism\<close>








subsection \<open>Lines without quote characters\<close>

lemma split_from_nonempty: "split_from cur cs \<noteq> []"
  by (induction cs arbitrary: cur) auto

lemma split_from_first: "\<exists>f \<in> set (split_from cur cs). length cur \<le> length f"
proof (induction cs arbitrary: cur)
  case Nil
  then show ?case by simp
next
  case (Cons c cs)
  show ?case
  proof (cases "c = TAB")
    case True
    then show ?thesis by simp
  next
    case False
    from Cons [of "cur @ [c]"] obtain f where "f \<in> set (split_from (cur @ [c]) cs)"
        "length (cur @ [c]) \<le> length f" by blast
    with False show ?thesis by (intro bexI [of _ f]) auto
  qed
qed

lemma split_from_chars: "f \<in> set (split_from cur cs) \<Longrightarrow> set f \<subseteq> set cur \<union> set cs"
proof (induction cs arbitrary: cur)
  case Nil
  then show ?case by simp
next
  case (Cons c cs)
  show ?case
  proof (cases "c = TAB")
    case True
    with Cons.prems have "f = cur \<or> f \<in> set (split_from [] cs)" by simp
    then show ?thesis
    proof
      assume "f = cur"
      then show ?thesis by auto
    next
      assume "f \<in> set (split_from [] cs)"
      from Cons.IH [OF this] show ?thesis by auto
    qed
  next
    case False
    with Cons.prems have "f \<in> set (split_from (cur @ [c]) cs)" by simp
    from Cons.IH [OF this] show ?thesis by auto
  qed
qed

lemma start_record_char:
  "state r = START_RECORD \<Longrightarrow> c \<noteq> LF \<Longrightarrow> c \<noteq> CR \<Longrightarrow>
   parse_process_char r (Some c) = parse_process_char (r\<lparr>state := START_FIELD\<rparr>) (Some c)"
  by simp

lemma field_limit_pos: "0 < field_limit"
  by (simp add: field_limit_def)

lemma fields_scan:
  assumes "state r = START_FIELD \<and> rfield r = [] \<or> state r = IN_FIELD"
      and "\<forall>c \<in> set cs. c \<noteq> LF \<and> c \<noteq> CR \<and> c \<noteq> DQUOTE"
      and "\<forall>f \<in> set (split_from (rfield r) cs). length f \<le> field_limit"
  shows "\<exists>r'. process_chars r cs = Inr r'
              \<and> (state r' = START_FIELD \<and> rfield r' = [] \<or> state r' = IN_FIELD)
              \<and> rfields r' @ [rfield r'] = rfields r @ split_from (rfield r) cs"
  using assms
proof (induction cs arbitrary: r)
  case Nil
  then show ?case by simp
next
  case (Cons c cs)
  have c: "c \<noteq> LF" "c \<noteq> CR" "c \<noteq> DQUOTE" using Cons.prems(2) by auto
  have rest: "\<forall>c \<in> set cs. c \<noteq> LF \<and> c \<noteq> CR \<and> c \<noteq> DQUOTE" using Cons.prems(2) by auto
  show ?case
  proof (cases "c = TAB")
    case True
    let ?r1 = "\<lparr>state = START_FIELD, rfields = rfields r @ [rfield r], rfield = []\<rparr>"
    have step: "parse_process_char r (Some c) = Inr ?r1"
      using Cons.prems(1) True
      by (auto simp: parse_save_field_def delimiter_def quotechar_def)
    have fit: "\<forall>f \<in> set (split_from (rfield ?r1) cs). length f \<le> field_limit"
      using Cons.prems(3) True by simp
    from Cons.IH [of ?r1, OF _ rest fit] obtain r' where
      r': "process_chars ?r1 cs = Inr r'"
          "state r' = START_FIELD \<and> rfield r' = [] \<or> state r' = IN_FIELD"
          "rfields r' @ [rfield r'] = rfields ?r1 @ split_from (rfield ?r1) cs"
      by auto
    show ?thesis
      using step r' True by (intro exI [of _ r']) (simp del: parse_process_char.simps)
  next
    case False
    let ?r1 = "\<lparr>state = IN_FIELD, rfields = rfields r, rfield = rfield r @ [c]\<rparr>"
    have fit: "\<forall>f \<in> set (split_from (rfield r @ [c]) cs). length f \<le> field_limit"
      using Cons.prems(3) False by simp
    obtain f where "f \<in> set (split_from (rfield r @ [c]) cs)" "length (rfield r @ [c]) \<le> length f"
      using split_from_first by blast
    with fit have room: "length (rfield r) < field_limit" by fastforce
    have step: "parse_process_char r (Some c) = Inr ?r1"
      using Cons.prems(1) False c room
      by (auto simp: parse_add_char_def then_state_def delimiter_def quotechar_def)
    have fit1: "\<forall>f \<in> set (split_from (rfield ?r1) cs). length f \<le> field_limit"
      using fit by simp
    from Cons.IH [of ?r1, OF _ rest fit1] obtain r' where
      r': "process_chars ?r1 cs = Inr r'"
          "state r' = START_FIELD \<and> rfield r' = [] \<or> state r' = IN_FIELD"
          "rfields r' @ [rfield r'] = rfields ?r1 @ split_from (rfield ?r1) cs"
      by auto
    show ?thesis
      using step r' False by (intro exI [of _ r']) (simp del: parse_process_char.simps)
  qed
qed

lemma line_body_cases:
  assumes "line_ok l"
  shows "LF \<notin> set (line_body l) \<and> CR \<notin> set (line_body l)
         \<and> (l = line_body l @ [LF] \<or> l = line_body l \<and> line_body l \<noteq> [])"
proof -
  from assms have ne: "l \<noteq> []" and nocr: "CR \<notin> set l" and nolf: "LF \<notin> set (butlast l)"
    by (auto simp: line_ok_def)
  show ?thesis
  proof (cases "last l = LF")
    case True
    then have b: "line_body l = butlast l" using ne by (simp add: line_body_def)
    have "l = butlast l @ [LF]" using ne True by (metis append_butlast_last_id)
    with b nolf nocr show ?thesis by (metis in_set_butlastD)
  next
    case False
    then have b: "line_body l = l" by (simp add: line_body_def)
    have "LF \<notin> set l"
    proof
      assume "LF \<in> set l"
      then have "LF \<in> set (butlast l @ [last l])" using ne by simp
      with nolf False show False by simp
    qed
    with b nocr ne show ?thesis by simp
  qed
qed

lemma process_plain_line:
  assumes "plain_line l"
  shows "process_line parse_reset l
           = Inr \<lparr>state = START_RECORD, rfields = split_line l, rfield = []\<rparr>"
proof -
  from assms have ok: "line_ok l" and noq: "DQUOTE \<notin> set l"
      and fit: "\<forall>f \<in> set (split_line l). length f \<le> field_limit"
    by (auto simp: plain_line_def)
  let ?b = "line_body l"
  from line_body_cases [OF ok] have nolf: "LF \<notin> set ?b" and nocr: "CR \<notin> set ?b"
      and shape: "l = ?b @ [LF] \<or> l = ?b \<and> ?b \<noteq> []" by auto
  have noq': "DQUOTE \<notin> set ?b" using noq shape by (metis Un_iff set_append)
  show ?thesis
  proof (cases "?b = []")
    case True
    with shape have l: "l = [LF]" by auto
    show ?thesis
      unfolding l by (simp add: process_line_def parse_reset_def split_line_def line_body_def)
  next
    case False
    then obtain c cs where b: "?b = c # cs" by (cases ?b) auto
    let ?r0 = "parse_reset\<lparr>state := START_FIELD\<rparr>"
    have c: "c \<noteq> LF" "c \<noteq> CR" using nolf nocr b by auto
    have first: "parse_process_char parse_reset (Some c) = parse_process_char ?r0 (Some c)"
      using c by (intro start_record_char) (simp_all add: parse_reset_def)
    have same: "process_chars parse_reset ?b = process_chars ?r0 ?b"
      unfolding b process_chars.simps first ..
    have sl: "split_line l = split_from [] ?b" using False by (simp add: split_line_def)
    have st: "state ?r0 = START_FIELD \<and> rfield ?r0 = [] \<or> state ?r0 = IN_FIELD"
      by (simp add: parse_reset_def)
    have chars: "\<forall>c \<in> set ?b. c \<noteq> LF \<and> c \<noteq> CR \<and> c \<noteq> DQUOTE"
      using nolf nocr noq' by auto
    have fit0: "\<forall>f \<in> set (split_from (rfield ?r0) ?b). length f \<le> field_limit"
      using fit sl by (simp add: parse_reset_def)
    from fields_scan [OF st chars fit0] obtain r' where
      r': "process_chars ?r0 ?b = Inr r'"
          "state r' = START_FIELD \<and> rfield r' = [] \<or> state r' = IN_FIELD"
          "rfields r' @ [rfield r'] = rfields ?r0 @ split_from (rfield ?r0) ?b"
      by blast
    have fields: "rfields r' @ [rfield r'] = split_line l"
      using r'(3) sl by (simp add: parse_reset_def)
    have body: "process_chars parse_reset ?b = Inr r'" using same r'(1) by simp
    have eol: "parse_process_char r' None
                 = Inr \<lparr>state = START_RECORD, rfields = split_line l, rfield = []\<rparr>"
      using r'(2) fields by (auto simp: parse_save_field_def)
    have lf: "parse_process_char r' (Some LF)
                 = Inr \<lparr>state = EAT_CRNL, rfields = split_line l, rfield = []\<rparr>"
      using r'(2) fields by (auto simp: parse_save_field_def)
    have eat: "parse_process_char \<lparr>state = EAT_CRNL, rfields = split_line l, rfield = []\<rparr> None
                 = Inr \<lparr>state = START_RECORD, rfields = split_line l, rfield = []\<rparr>"
      by simp
    from shape show ?thesis
    proof
      assume l: "l = ?b @ [LF]"
      have "process_chars parse_reset (?b @ [LF])
              = Inr \<lparr>state = EAT_CRNL, rfields = split_line l, rfield = []\<rparr>"
        using body lf by (simp only: process_chars_append sum.case process_chars.simps)
      then have "process_chars parse_reset l
              = Inr \<lparr>state = EAT_CRNL, rfields = split_line l, rfield = []\<rparr>"
        using l by simp
      then show ?thesis
        using eat by (simp only: process_line_def sum.case)
    next
      assume "l = ?b \<and> ?b \<noteq> []"
      then have "process_chars parse_reset l = Inr r'" using body by simp
      then show ?thesis
        using eol by (simp only: process_line_def sum.case)
    qed
  qed
qed

lemma read_plain_lines:
  "\<forall>l \<in> set ls. plain_line l \<Longrightarrow> read_records parse_reset ls = Inr (map split_line ls)"
proof (induction ls)
  case Nil
  then show ?case by (simp add: parse_reset_def)
next
  case (Cons l ls)
  then have p: "plain_line l" and ih: "read_records parse_reset ls = Inr (map split_line ls)"
    by auto
  show ?case
    by (simp add: process_plain_line [OF p] ih)
qed

subsection \<open>Lines of the CSV output\<close>

lemma join_chars: "set (join sep xs) \<subseteq> set sep \<union> \<Union> (set ` set xs)"
  by (induction sep xs rule: join.induct) auto

lemma join_append_chars: "set (join_append f) \<subseteq> insert DQUOTE (set f)"
  by (auto simp: join_append_def Let_def split: if_splits)

lemma writerow_shape:
  assumes "\<forall>f \<in> set row. LF \<notin> set f"
  shows "\<exists>body. writerow row = body @ [LF] \<and> LF \<notin> set body"
proof -
  let ?rec = "join '','' (map join_append row)"
  have "LF \<notin> set ?rec"
  proof
    assume "LF \<in> set ?rec"
    with join_chars [of "'',''" "map join_append row"]
    obtain f where "f \<in> set row" "LF \<in> set (join_append f)" by auto
    with join_append_chars [of f] assms show False by auto
  qed
  then have "LF \<notin> set ((if row \<noteq> [] \<and> ?rec = [] then [DQUOTE, DQUOTE] else ?rec) @ [CR])"
    by simp
  moreover have "writerow row
      = ((if row \<noteq> [] \<and> ?rec = [] then [DQUOTE, DQUOTE] else ?rec) @ [CR]) @ [LF]"
    by (simp add: writerow_def Let_def)
  ultimately show ?thesis by blast
qed

lemma file_lines_line: "LF \<notin> set body \<Longrightarrow> file_lines (body @ LF # rest) = (body @ [LF]) # file_lines rest"
  by (induction body) auto

lemma file_lines_concat:
  "\<forall>l \<in> set ls. \<exists>body. l = body @ [LF] \<and> LF \<notin> set body \<Longrightarrow> file_lines (concat ls) = ls"
proof (induction ls)
  case Nil
  then show ?case by simp
next
  case (Cons l ls)
  then obtain body where l: "l = body @ [LF]" "LF \<notin> set body" by auto
  have "file_lines (concat ls) = ls" using Cons by simp
  then show ?case
    using file_lines_line [OF l(2), of "concat ls"] l(1) by simp
qed

lemma split_line_no_LF:
  assumes "line_ok l" and "f \<in> set (split_line l)"
  shows "LF \<notin> set f"
proof -
  from assms(2) have "f \<in> set (split_from [] (line_body l))"
    by (simp add: split_line_def split: if_splits)
  from split_from_chars [OF this] line_body_cases [OF assms(1)] show ?thesis by auto
qed

lemma split_line_nonempty: "line_body l \<noteq> [] \<Longrightarrow> split_line l \<noteq> []"
  by (simp add: split_line_def split_from_nonempty)

lemma csv_output_lines:
  assumes "\<forall>l \<in> set ls. line_ok l"
  shows "file_lines (concat (map writerow (map split_line ls))) = map writerow (map split_line ls)"
proof (rule file_lines_concat, intro ballI)
  fix w assume "w \<in> set (map writerow (map split_line ls))"
  then obtain l where l: "l \<in> set ls" and w: "w = writerow (split_line l)" by auto
  have "\<forall>f \<in> set (split_line l). LF \<notin> set f"
    using split_line_no_LF assms l by blast
  from writerow_shape [OF this] w show "\<exists>body. w = body @ [LF] \<and> LF \<notin> set body" by simp
qed

lemma DictReader_plain_count:
  assumes "\<forall>l \<in> set data_lines. line_body l \<noteq> []"
  shows "length (DictReader (map split_line (header_line # data_lines))) = length data_lines"
proof -
  have "filter (\<lambda>row. row \<noteq> []) (map split_line data_lines) = map split_line data_lines"
    using assms by (auto simp: filter_id_conv split_line_nonempty)
  then show ?thesis by (simp add: DictReader_def)
qed

subsection \<open>Row counts\<close>

text \<open>Scenarios 1 and 2 of the specification.\<close>

lemma scenario_1:
  "main [''Formater.py'', ''in.tsv'', ''-c'']
        [''in.tsv'' \<mapsto> latin1 (''name'' @ [TAB] @ ''age'' @ [LF] @ ''Alice'' @ [TAB] @ ''30'' @ [LF]
                                  @ ''Bob'' @ [TAB] @ ''25'' @ [LF])]
   = Exit 0 [''Conversion complete. Output saved to output.csv'']
      [''in.tsv'' \<mapsto> latin1 (''name'' @ [TAB] @ ''age'' @ [LF] @ ''Alice'' @ [TAB] @ ''30'' @ [LF]
                                  @ ''Bob'' @ [TAB] @ ''25'' @ [LF]),
       ''output.csv'' \<mapsto> encode_utf8
          (''name,age'' @ [CR, LF] @ ''Alice,30'' @ [CR, LF] @ ''Bob,25'' @ [CR, LF])]"
  by (simp add: main_def finish_def convert_to_csv_def input_eval reader_eval
        writerow_def join_append_def needs_quotes_def)

lemma scenario_2:
  "main [''Formater.py'', ''in.tsv'', ''-j'']
        [''in.tsv'' \<mapsto> latin1 (''name'' @ [TAB] @ ''age'' @ [LF] @ ''Alice'' @ [TAB] @ ''30'' @ [LF]
                                  @ ''Bob'' @ [TAB] @ ''25'' @ [LF])]
   = Exit 0 [''Conversion complete. Output saved to output.json'']
      [''in.tsv'' \<mapsto> latin1 (''name'' @ [TAB] @ ''age'' @ [LF] @ ''Alice'' @ [TAB] @ ''30'' @ [LF]
                                  @ ''Bob'' @ [TAB] @ ''25'' @ [LF]),
       ''output.json'' \<mapsto> encode_utf8
          (''['' @ [LF] @
           ''    {'' @ [LF] @
           ''        '' @ [DQUOTE] @ ''name'' @ [DQUOTE] @ '': '' @ [DQUOTE] @ ''Alice'' @ [DQUOTE] @ '','' @ [LF] @
           ''        '' @ [DQUOTE] @ ''age'' @ [DQUOTE] @ '': '' @ [DQUOTE] @ ''30'' @ [DQUOTE] @ [LF] @
           ''    },'' @ [LF] @
           ''    {'' @ [LF] @
           ''        '' @ [DQUOTE] @ ''name'' @ [DQUOTE] @ '': '' @ [DQUOTE] @ ''Bob'' @ [DQUOTE] @ '','' @ [LF] @
           ''        '' @ [DQUOTE] @ ''age'' @ [DQUOTE] @ '': '' @ [DQUOTE] @ ''25'' @ [DQUOTE] @ [LF] @
           ''    }'' @ [LF] @
           '']'')]"
  by (simp add: main_def finish_def convert_to_json_def input_eval reader_eval dict_eval json_eval)

text \<open>
  Claim C4, as stated: an input of one header row and N data rows gives N+1 CSV lines, N
  JSON elements and N items. It fails: the input of the three lines \<^verbatim>\<open>a\<close>, \<^verbatim>\<open>"x\<close> and
  \<^verbatim>\<open>y\<close> has two data rows, none of them blank, but the reader takes the quote character
  as the start of a quoted field that runs to the end of the file, and the JSON array
  written has one element.
\<close>

theorem row_count_counterexample:
  "text_lines (latin1 (''a'' @ [LF] @ [DQUOTE] @ ''x'' @ [LF] @ ''y'' @ [LF]))
     = [''a'' @ [LF], [DQUOTE] @ ''x'' @ [LF], ''y'' @ [LF]]
   \<and> main [''Formater.py'', ''in.tsv'', ''-j'']
        [''in.tsv'' \<mapsto> latin1 (''a'' @ [LF] @ [DQUOTE] @ ''x'' @ [LF] @ ''y'' @ [LF])]
   = Exit 0 [''Conversion complete. Output saved to output.json'']
      [''in.tsv'' \<mapsto> latin1 (''a'' @ [LF] @ [DQUOTE] @ ''x'' @ [LF] @ ''y'' @ [LF]),
       ''output.json'' \<mapsto> encode_utf8
          (''['' @ [LF] @
           ''    {'' @ [LF] @
           ''        '' @ [DQUOTE] @ ''a'' @ [DQUOTE] @ '': '' @ [DQUOTE]
                        @ ''x'' @ [BACKSLASH] @ ''ny'' @ [BACKSLASH] @ ''n'' @ [DQUOTE] @ [LF] @
           ''    }'' @ [LF] @
           '']'')]"
  by (simp add: main_def finish_def convert_to_json_def input_eval reader_eval dict_eval json_eval)

text \<open>
  Claim C4, amended. For an input of one header line and N data lines, all of them
  non-blank, free of quote characters and without a field longer than the field limit:
  the reader returns the lines split at the tabs; the CSV output has exactly N+1 lines,
  as many as the input; the JSON array has exactly N elements; the tree built for XML has
  exactly N children under the root, all named \<^verbatim>\<open>item\<close>, and its document is written when
  no header name starts with \<^verbatim>\<open>{\<close> and no data line has more fields than the header.
\<close>

theorem row_counts_preserved:
  assumes "fs input_file = Some content"
      and "text_lines content = header_line # data_lines"
      and "\<forall>l \<in> set (header_line # data_lines). plain_line l \<and> line_body l \<noteq> []"
  shows "csv_reader (text_lines content) = Inr (map split_line (header_line # data_lines))
         \<and> (input_file \<noteq> csv_file \<longrightarrow>
              (\<exists>doc. convert_to_csv input_file csv_file fs = Inr (fs(csv_file \<mapsto> encode_utf8 doc))
                     \<and> length (file_lines doc) = length data_lines + 1
                     \<and> length (file_lines doc) = length (text_lines content)))
         \<and> (\<exists>data. read_dict_rows content = Inr data
                  \<and> length data = length data_lines
                  \<and> convert_to_json input_file json_file fs
                      = Inr (fs(json_file \<mapsto> encode_utf8 (json_dump data)))
                  \<and> length (echildren (make_root data)) = length data_lines
                  \<and> (\<forall>item \<in> set (echildren (make_root data)). etag item = Some ''item'')
                  \<and> etag (make_root data) = Some ''root''
                  \<and> ((\<forall>n \<in> set (split_line header_line). plain_name n)
                       \<and> (\<forall>l \<in> set data_lines.
                              length (split_line l) \<le> length (split_line header_line)) \<longrightarrow>
                       convert_to_xml input_file xml_file fs
                         = Inr (fs(xml_file \<mapsto> encode_utf8 (document_text (make_root data))))))"
proof -
  let ?lines = "header_line # data_lines"
  let ?records = "map split_line ?lines"
  let ?data = "DictReader ?records"
  let ?doc = "concat (map writerow ?records)"
  have plain: "\<forall>l \<in> set ?lines. plain_line l" using assms(3) by blast
  have ok: "\<forall>l \<in> set ?lines. line_ok l" using plain by (simp add: plain_line_def)
  have nonblank: "\<forall>l \<in> set data_lines. line_body l \<noteq> []" using assms(3) by simp
  have reader: "csv_reader (text_lines content) = Inr ?records"
    unfolding assms(2) csv_reader_def using plain by (rule read_plain_lines)
  have csv: "\<exists>doc. convert_to_csv input_file csv_file fs = Inr (fs(csv_file \<mapsto> encode_utf8 doc))
                     \<and> length (file_lines doc) = length data_lines + 1
                     \<and> length (file_lines doc) = length (text_lines content)"
    if "input_file \<noteq> csv_file"
  proof (intro exI [of _ ?doc] conjI)
    show "convert_to_csv input_file csv_file fs = Inr (fs(csv_file \<mapsto> encode_utf8 ?doc))"
      using that assms(1) reader by (simp add: convert_to_csv_def)
    have "file_lines ?doc = map writerow ?records" using ok by (rule csv_output_lines)
    then show "length (file_lines ?doc) = length data_lines + 1"
      and "length (file_lines ?doc) = length (text_lines content)"
      by (simp_all add: assms(2))
  qed
  have data: "read_dict_rows content = Inr ?data"
    using reader by (simp add: read_dict_rows_def)
  have count: "length ?data = length data_lines"
    using nonblank by (rule DictReader_plain_count)
  have json: "convert_to_json input_file json_file fs
                = Inr (fs(json_file \<mapsto> encode_utf8 (json_dump ?data)))"
    using assms(1) data by (simp add: convert_to_json_def)
  have items: "length (echildren (make_root ?data)) = length data_lines"
    using count by (simp add: make_root_def)
  have tags: "\<forall>item \<in> set (echildren (make_root ?data)). etag item = Some ''item''"
    by (auto simp: make_root_def make_item_def)
  have root: "etag (make_root ?data) = Some ''root''"
    by (simp add: make_root_def)
  have xml: "convert_to_xml input_file xml_file fs
               = Inr (fs(xml_file \<mapsto> encode_utf8 (document_text (make_root ?data))))"
    if names: "\<forall>n \<in> set (split_line header_line). plain_name n"
      and lens: "\<forall>l \<in> set data_lines. length (split_line l) \<le> length (split_line header_line)"
  proof -
    have d: "?data = map (DictReader_row (split_line header_line))
                        (filter (\<lambda>row. row \<noteq> []) (map split_line data_lines))"
      by (simp add: DictReader_def)
    have "\<forall>row \<in> set (filter (\<lambda>row. row \<noteq> []) (map split_line data_lines)).
             length row \<le> length (split_line header_line)"
      using lens by auto
    then have "plain_tree (make_root ?data)"
      unfolding d using names by (rule plain_root)
    then have "tree_write (make_root ?data) = Inr (document_text (make_root ?data))"
      by (rule tree_write_plain)
    then show ?thesis
      using assms(1) data by (simp add: convert_to_xml_def)
  qed
  show ?thesis
    using reader csv data count json items tags root xml by blast
qed

theorem row_counts_preserved_witness:
  "[''in.tsv'' \<mapsto> latin1 (''a'' @ [TAB] @ ''b'' @ [LF] @ ''1'' @ [TAB] @ ''2'' @ [LF])] ''in.tsv''
     = Some (latin1 (''a'' @ [TAB] @ ''b'' @ [LF] @ ''1'' @ [TAB] @ ''2'' @ [LF]))
   \<and> text_lines (latin1 (''a'' @ [TAB] @ ''b'' @ [LF] @ ''1'' @ [TAB] @ ''2'' @ [LF]))
     = [''a'' @ [TAB] @ ''b'' @ [LF], ''1'' @ [TAB] @ ''2'' @ [LF]]
   \<and> plain_line (''a'' @ [TAB] @ ''b'' @ [LF]) \<and> line_body (''a'' @ [TAB] @ ''b'' @ [LF]) \<noteq> []
   \<and> plain_line (''1'' @ [TAB] @ ''2'' @ [LF]) \<and> line_body (''1'' @ [TAB] @ ''2'' @ [LF]) \<noteq> []
   \<and> csv_reader (text_lines (latin1 (''a'' @ [TAB] @ ''b'' @ [LF] @ ''1'' @ [TAB] @ ''2'' @ [LF])))
     = Inr [[''a'', ''b''], [''1'', ''2'']]"
proof -
  let ?content = "latin1 (''a'' @ [TAB] @ ''b'' @ [LF] @ ''1'' @ [TAB] @ ''2'' @ [LF])"
  have h1: "[''in.tsv'' \<mapsto> ?content] ''in.tsv'' = Some ?content" by simp
  have h2: "text_lines ?content = (''a'' @ [TAB] @ ''b'' @ [LF]) # [''1'' @ [TAB] @ ''2'' @ [LF]]"
    by (simp add: input_eval)
  have p1: "plain_line (''a'' @ [TAB] @ ''b'' @ [LF]) \<and> line_body (''a'' @ [TAB] @ ''b'' @ [LF]) \<noteq> []"
    by (simp add: plain_line_def line_ok_def split_line_def line_body_def field_limit_def)
  have p2: "plain_line (''1'' @ [TAB] @ ''2'' @ [LF]) \<and> line_body (''1'' @ [TAB] @ ''2'' @ [LF]) \<noteq> []"
    by (simp add: plain_line_def line_ok_def split_line_def line_body_def field_limit_def)
  have h3: "\<forall>l \<in> set ((''a'' @ [TAB] @ ''b'' @ [LF]) # [''1'' @ [TAB] @ ''2'' @ [LF]]).
              plain_line l \<and> line_body l \<noteq> []"
    using p1 p2 by simp
  have sl: "map split_line ((''a'' @ [TAB] @ ''b'' @ [LF]) # [''1'' @ [TAB] @ ''2'' @ [LF]])
              = [[''a'', ''b''], [''1'', ''2'']]"
    by (simp add: split_line_def line_body_def)
  note t = row_counts_preserved
             [where fs = "[''in.tsv'' \<mapsto> ?content]" and input_file = "''in.tsv''", OF h1 h2 h3]
  have "csv_reader (text_lines ?content) = Inr [[''a'', ''b''], [''1'', ''2'']]"
    using t [THEN conjunct1] unfolding sl .
  then show ?thesis
    using h1 h2 p1 p2 by simp
qed

subsection \<open>Blank lines\<close>

lemma read_records_append:
  assumes "reader_after r before = Inr parse_reset"
  shows "read_records r (before @ rest)
           = (case read_records r before of
                Inl e \<Rightarrow> Inl e
              | Inr rows1 \<Rightarrow>
                  (case read_records parse_reset rest of
                     Inl e \<Rightarrow> Inl e
                   | Inr rows2 \<Rightarrow> Inr (rows1 @ rows2)))"
  using assms
proof (induction before arbitrary: r)
  case Nil
  then have r: "r = parse_reset" by simp
  have "read_records parse_reset [] = Inr []" by (simp add: parse_reset_def)
  then show ?case
    unfolding r by (cases "read_records parse_reset rest") (simp_all del: read_records.simps)
next
  case (Cons l ls)
  show ?case
  proof (cases "process_line r l")
    case (Inl e)
    with Cons.prems show ?thesis by simp
  next
    case (Inr r1)
    show ?thesis
    proof (cases "state r1 = START_RECORD")
      case True
      with Cons.prems Inr have "reader_after parse_reset ls = Inr parse_reset" by simp
      from Cons.IH [OF this] Inr True show ?thesis
        by (cases "read_records parse_reset ls"; cases "read_records parse_reset rest") simp_all
    next
      case False
      with Cons.prems Inr have "reader_after r1 ls = Inr parse_reset" by simp
      from Cons.IH [OF this] Inr False show ?thesis
        by simp
    qed
  qed
qed

lemma blank_line_record:
  "read_records parse_reset ([LF] # rest)
     = (case read_records parse_reset rest of Inl e \<Rightarrow> Inl e | Inr rows \<Rightarrow> Inr ([] # rows))"
  by (simp add: process_line_def parse_reset_def split: sum.splits)

lemma writerow_blank: "writerow [] = [CR, LF]"
  by (simp add: writerow_def)

lemma reader_after_plain:
  "\<forall>l \<in> set ls. plain_line l \<Longrightarrow> reader_after parse_reset ls = Inr parse_reset"
proof (induction ls)
  case Nil
  then show ?case by simp
next
  case (Cons l ls)
  then have p: "plain_line l" and ih: "reader_after parse_reset ls = Inr parse_reset" by auto
  show ?case by (simp add: process_plain_line [OF p] ih)
qed

text \<open>
  Claim C5. When the lines of the input are some lines that end on a record boundary and
  give a header and data records, then an empty line, then further lines, the CSV
  converter reads the empty line as a record without fields and writes it as an empty
  output row, a bare line terminator between the rows before and after it; the rows read
  for JSON and XML are those of the other records only, so the empty line gives no array
  element and no item, and the elements are at least two fewer than the rows of the CSV
  output.
\<close>

theorem blank_line_kept_by_csv_skipped_by_dicts:
  assumes "text_lines content = before @ [LF] # after"
      and "csv_reader before = Inr (fieldnames # rows1)"
      and "reader_after parse_reset before = Inr parse_reset"
      and "csv_reader after = Inr rows2"
  shows "csv_reader (text_lines content) = Inr (fieldnames # rows1 @ [] # rows2)
         \<and> concat (map writerow (fieldnames # rows1 @ [] # rows2))
             = concat (map writerow (fieldnames # rows1)) @ [CR, LF] @ concat (map writerow rows2)
         \<and> (\<forall>fs input_file output_file.
               fs input_file = Some content \<and> input_file \<noteq> output_file \<longrightarrow>
               convert_to_csv input_file output_file fs
                 = Inr (fs(output_file \<mapsto> encode_utf8
                      (concat (map writerow (fieldnames # rows1)) @ [CR, LF]
                       @ concat (map writerow rows2)))))
         \<and> read_dict_rows content
             = Inr (map (DictReader_row fieldnames) (filter (\<lambda>row. row \<noteq> []) (rows1 @ rows2)))
         \<and> (\<forall>data. read_dict_rows content = Inr data \<longrightarrow>
               length (echildren (make_root data)) = length data
               \<and> length data + 2 \<le> length (fieldnames # rows1 @ [] # rows2))"
proof -
  have all: "csv_reader (text_lines content) = Inr (fieldnames # rows1 @ [] # rows2)"
    using assms(2,4) read_records_append [OF assms(3), of "[LF] # after"]
    unfolding assms(1) csv_reader_def
    by (simp add: blank_line_record del: read_records.simps)
  have doc: "concat (map writerow (fieldnames # rows1 @ [] # rows2))
             = concat (map writerow (fieldnames # rows1)) @ [CR, LF] @ concat (map writerow rows2)"
    by (simp add: writerow_blank)
  have csv: "\<forall>fs input_file output_file.
               fs input_file = Some content \<and> input_file \<noteq> output_file \<longrightarrow>
               convert_to_csv input_file output_file fs
                 = Inr (fs(output_file \<mapsto> encode_utf8
                      (concat (map writerow (fieldnames # rows1)) @ [CR, LF]
                       @ concat (map writerow rows2))))"
    using all doc by (simp add: convert_to_csv_def del: concat.simps map_append)
  have dicts: "read_dict_rows content
             = Inr (map (DictReader_row fieldnames) (filter (\<lambda>row. row \<noteq> []) (rows1 @ rows2)))"
    using all by (simp add: read_dict_rows_def DictReader_def)
  have "length (filter (\<lambda>row. row \<noteq> []) (rows1 @ rows2)) \<le> length (rows1 @ rows2)"
    by (rule length_filter_le)
  then have counts: "\<forall>data. read_dict_rows content = Inr data \<longrightarrow>
               length (echildren (make_root data)) = length data
               \<and> length data + 2 \<le> length (fieldnames # rows1 @ [] # rows2)"
    unfolding dicts by (auto simp: make_root_def)
  show ?thesis
    using all doc csv dicts counts by blast
qed

theorem blank_line_kept_by_csv_skipped_by_dicts_witness:
  "text_lines (latin1 (''a'' @ [LF] @ ''1'' @ [LF, LF] @ ''2'' @ [LF]))
     = [''a'' @ [LF], ''1'' @ [LF]] @ [LF] # [''2'' @ [LF]]
   \<and> csv_reader [''a'' @ [LF], ''1'' @ [LF]] = Inr [[''a''], [''1'']]
   \<and> reader_after parse_reset [''a'' @ [LF], ''1'' @ [LF]] = Inr parse_reset
   \<and> csv_reader [''2'' @ [LF]] = Inr [[''2'']]
   \<and> csv_reader (text_lines (latin1 (''a'' @ [LF] @ ''1'' @ [LF, LF] @ ''2'' @ [LF])))
     = Inr [[''a''], [''1''], [], [''2'']]
   \<and> read_dict_rows (latin1 (''a'' @ [LF] @ ''1'' @ [LF, LF] @ ''2'' @ [LF]))
     = Inr [[(Some ''a'', PStr ''1'')], [(Some ''a'', PStr ''2'')]]"
proof -
  let ?content = "latin1 (''a'' @ [LF] @ ''1'' @ [LF, LF] @ ''2'' @ [LF])"
  have h1: "text_lines ?content = [''a'' @ [LF], ''1'' @ [LF]] @ [LF] # [''2'' @ [LF]]"
    by (simp add: input_eval)
  have h2: "csv_reader [''a'' @ [LF], ''1'' @ [LF]] = Inr ([''a''] # [[''1'']])"
    by (simp add: reader_eval)
  have h3: "reader_after parse_reset [''a'' @ [LF], ''1'' @ [LF]] = Inr parse_reset"
    by (simp add: reader_eval)
  have h4: "csv_reader [''2'' @ [LF]] = Inr [[''2'']]"
    by (simp add: reader_eval)
  note t = blank_line_kept_by_csv_skipped_by_dicts [OF h1 h2 h3 h4]
  have a: "csv_reader (text_lines ?content) = Inr [[''a''], [''1''], [], [''2'']]"
    using t [THEN conjunct1] by simp
  have b: "read_dict_rows ?content = Inr [[(Some ''a'', PStr ''1'')], [(Some ''a'', PStr ''2'')]]"
    using t [THEN conjunct2, THEN conjunct2, THEN conjunct2, THEN conjunct1]
    by (simp add: DictReader_row_def)
  show ?thesis
    using h1 h2 h3 h4 a b by simp
qed

end
